theory Spec2Isabelle
  imports Main "HOL-Library.AList"
begin

section \<open>Shared vocabulary\<close>

text \<open>
  The source throws \<^verbatim>\<open>new Error(message)\<close>; user callbacks may throw anything.  One
  constructor carrying the message covers both.

  A JavaScript \<^verbatim>\<open>Map<string, V>\<close> is an association list in insertion order:
  \<^verbatim>\<open>get\<close> is \<^const>\<open>map_of\<close>, \<^verbatim>\<open>set\<close> is \<^const>\<open>AList.update\<close> (replace in place,
  else append), \<^verbatim>\<open>delete\<close> is \<^const>\<open>AList.delete\<close>.
\<close>

datatype error = Error string

section \<open>data.types.ts\<close>

datatype CleanupStrategy = afterTest | afterSuite | afterAll | manual

text \<open>An entity is its attribute object: field name to value.\<close>

type_synonym 'v entity = "(string \<times> 'v) list"

record 'v FactoryOptions =
  transient :: "bool option"
  opt_attributes :: "'v entity option"

record 'v TestDataState =
  entities :: "(string \<times> 'v entity list) list"
  cleanupStrategies :: "(string \<times> CleanupStrategy) list"

text \<open>
  The hooks are async functions of the test author; a hook is modelled by what awaiting
  it yields: the value, or the error it threw.
\<close>

record 'v FactoryDefinition =
  entity :: string
  cleanupStrategy :: "CleanupStrategy option"
  attributes :: "unit \<Rightarrow> 'v entity"
  beforeCreate :: "('v entity \<Rightarrow> error + 'v entity) option"
  afterCreate :: "('v entity \<Rightarrow> error + 'v entity) option"

section \<open>FactoryManager (factory.manager.ts)\<close>

record 'v FactoryManager =
  factories :: "(string \<times> 'v FactoryDefinition) list"
  state :: "'v TestDataState"



text \<open>The object spread \<^verbatim>\<open>{ ...attributes, ...options.attributes }\<close>: key by key, the override wins.\<close>

fun spread :: "'v entity \<Rightarrow> 'v entity \<Rightarrow> 'v entity" where
  "spread base [] = base"
| "spread base ((k, v) # ov) = spread (AList.update k v base) ov"

text \<open>\<^verbatim>\<open>trackEntity\<close>: create the bucket when missing, then push.\<close>

definition trackEntity :: "'v FactoryManager \<Rightarrow> string \<Rightarrow> 'v entity \<Rightarrow> 'v FactoryManager" where
  "trackEntity fm entityName ent =
     (let es = (case map_of (entities (state fm)) entityName of
                  None \<Rightarrow> AList.update entityName [] (entities (state fm))
                | Some _ \<Rightarrow> entities (state fm))
      in fm\<lparr>state := (state fm)\<lparr>entities := AList.map_entry entityName (\<lambda>b. b @ [ent]) es\<rparr>\<rparr>)"

text \<open>
  \<^verbatim>\<open>create\<close>, in the order of the source: generator, override, \<^verbatim>\<open>beforeCreate\<close>,
  \<^verbatim>\<open>afterCreate\<close> (its value is dropped), and only then \<^verbatim>\<open>trackEntity\<close>.  The
  \<^verbatim>\<open>catch\<close> logs and rethrows.  The manager is returned beside the result, since a
  rejected call leaves the manager as it was at the throw.
\<close>

definition create ::
  "'v FactoryManager \<Rightarrow> string \<Rightarrow> 'v FactoryOptions \<Rightarrow> (error + 'v entity) \<times> 'v FactoryManager" where
  "create fm entityName options =
     (case map_of (factories fm) entityName of
        None \<Rightarrow> (Inl (Error (''Factory not found for entity: '' @ entityName)), fm)
      | Some factory \<Rightarrow>
          (let attributes0 = attributes factory ();
               attributes1 = (case opt_attributes options of
                                None \<Rightarrow> attributes0
                              | Some ov \<Rightarrow> spread attributes0 ov)
           in case (case beforeCreate factory of
                      None \<Rightarrow> Inr attributes1
                    | Some hook \<Rightarrow> hook attributes1) of
                Inl e \<Rightarrow> (Inl e, fm)
              | Inr ent \<Rightarrow>
                  (case (case afterCreate factory of
                           None \<Rightarrow> Inr ent
                         | Some hook \<Rightarrow> hook ent) of
                     Inl e \<Rightarrow> (Inl e, fm)
                   | Inr _ \<Rightarrow>
                       (if transient options = Some True then (Inr ent, fm)
                        else (Inr ent, trackEntity fm entityName ent)))))"

text \<open>
  \<^verbatim>\<open>cleanup\<close>: the loop over \<^verbatim>\<open>entities.entries()\<close>, deleting the visited key when its
  strategy is the requested one.  \<^verbatim>\<open>cleanupEntities\<close> only writes a debug line.
  Deleting the entry being visited does not disturb a \<^verbatim>\<open>Map\<close> iteration, so the loop
  runs over the entries as they were, against the current map.
\<close>

fun cleanup_loop ::
  "(string \<times> CleanupStrategy) list \<Rightarrow> CleanupStrategy \<Rightarrow> (string \<times> 'a) list \<Rightarrow>
   (string \<times> 'a) list \<Rightarrow> (string \<times> 'a) list" where
  "cleanup_loop strategies strategy [] cur = cur"
| "cleanup_loop strategies strategy ((entityName, ents) # rest) cur =
     (if map_of strategies entityName = Some strategy
      then cleanup_loop strategies strategy rest (AList.delete entityName cur)
      else cleanup_loop strategies strategy rest cur)"

definition cleanup :: "'v FactoryManager \<Rightarrow> CleanupStrategy \<Rightarrow> 'v FactoryManager" where
  "cleanup fm strategy =
     fm\<lparr>state := (state fm)\<lparr>entities :=
       cleanup_loop (cleanupStrategies (state fm)) strategy
         (entities (state fm)) (entities (state fm))\<rparr>\<rparr>"

text \<open>\<^verbatim>\<open>reset\<close> clears the tracked entities and the strategies; the factories stay.\<close>

definition reset_factory :: "'v FactoryManager \<Rightarrow> 'v FactoryManager" where
  "reset_factory fm = fm\<lparr>state := \<lparr>entities = [], cleanupStrategies = []\<rparr>\<rparr>"


subsection \<open>Concrete factories\<close>






section \<open>DatabaseSeeder (database.seeder.ts)\<close>

text \<open>The field \<^verbatim>\<open>truncate\<close> is \<open>cfg_truncate\<close>: a record already has a constant of that name.\<close>

record SeederConfig =
  cfg_truncate :: "bool option"
  dependencies :: "string list option"
  environment :: "string list option"

text \<open>
  A seed function is an async function on the store handle; awaiting it yields the store
  it leaves, or the error it threw.  \<open>calls\<close> is instrumentation: the truncations and
  seed functions started so far, in order.
\<close>

datatype seed_call = Truncated string | Seeded string

record 's DatabaseSeeder =
  prisma :: 's
  seeders :: "(string \<times> ('s \<Rightarrow> error + 's)) list"
  config :: "(string \<times> SeederConfig) list"
  calls :: "seed_call list"

definition register_seeder ::
  "'s DatabaseSeeder \<Rightarrow> string \<Rightarrow> ('s \<Rightarrow> error + 's) \<Rightarrow> SeederConfig \<Rightarrow> 's DatabaseSeeder" where
  "register_seeder ds nm seeder cfg =
     ds\<lparr>seeders := AList.update nm seeder (seeders ds),
        config := AList.update nm cfg (config ds)\<rparr>"

text \<open>\<^verbatim>\<open>config?.dependencies\<close> of a name, empty when the name or the list is missing.\<close>

definition deps_of :: "(string \<times> SeederConfig) list \<Rightarrow> string \<Rightarrow> string list" where
  "deps_of cfgs nm =
     (case map_of cfgs nm of
        None \<Rightarrow> []
      | Some c \<Rightarrow> (case dependencies c of None \<Rightarrow> [] | Some ds \<Rightarrow> ds))"

text \<open>The error of \<^verbatim>\<open>visit\<close> for a dependency that is not registered.\<close>

definition dependency_not_found :: "string \<Rightarrow> string \<Rightarrow> error" where
  "dependency_not_found dep nm =
     Error (''Dependency not found: '' @ dep @ '' (required by '' @ nm @ '')'')"

text \<open>
  \<^verbatim>\<open>sortByDependencies\<close>.  The closure \<^verbatim>\<open>visit\<close> recurses through the dependency lists;
  the recursion depth is the first argument, and \<open>None\<close> means that depth was not enough.
  The pair is \<^verbatim>\<open>(visited, sorted)\<close>, written \<open>(visited, sortd)\<close>.  \<open>visit_deps\<close> is the \<^verbatim>\<open>for (const dep of ...)\<close> loop.
\<close>

fun visit ::
    "nat \<Rightarrow> (string \<times> 'f) list \<Rightarrow> (string \<times> SeederConfig) list \<Rightarrow> string \<Rightarrow>
     string set \<times> string list \<Rightarrow> (error + string set \<times> string list) option"
  and visit_deps ::
    "nat \<Rightarrow> (string \<times> 'f) list \<Rightarrow> (string \<times> SeederConfig) list \<Rightarrow> string \<Rightarrow> string list \<Rightarrow>
     string set \<times> string list \<Rightarrow> (error + string set \<times> string list) option" where
  "visit 0 sds cfgs nm (visited, sortd) = None"
| "visit (Suc k) sds cfgs nm (visited, sortd) =
     (if nm \<in> visited then Some (Inr (visited, sortd))
      else
        (case visit_deps k sds cfgs nm (deps_of cfgs nm) (insert nm visited, sortd) of
           None \<Rightarrow> None
         | Some (Inl e) \<Rightarrow> Some (Inl e)
         | Some (Inr (visited', sortd')) \<Rightarrow> Some (Inr (visited', sortd' @ [nm]))))"
| "visit_deps k sds cfgs nm [] st = Some (Inr st)"
| "visit_deps k sds cfgs nm (dep # deps) st =
     (if map_of sds dep = None
      then Some (Inl (dependency_not_found dep nm))
      else
        (case visit k sds cfgs dep st of
           None \<Rightarrow> None
         | Some (Inl e) \<Rightarrow> Some (Inl e)
         | Some (Inr st') \<Rightarrow> visit_deps k sds cfgs nm deps st'))"

text \<open>The loop \<^verbatim>\<open>for (const name of names) visit(name)\<close>.\<close>

fun visit_names ::
  "nat \<Rightarrow> (string \<times> 'f) list \<Rightarrow> (string \<times> SeederConfig) list \<Rightarrow> string list \<Rightarrow>
   string set \<times> string list \<Rightarrow> (error + string set \<times> string list) option" where
  "visit_names k sds cfgs [] st = Some (Inr st)"
| "visit_names k sds cfgs (nm # names) st =
     (case visit k sds cfgs nm st of
        None \<Rightarrow> None
      | Some (Inl e) \<Rightarrow> Some (Inl e)
      | Some (Inr st') \<Rightarrow> visit_names k sds cfgs names st')"

definition sortByDependencies ::
  "nat \<Rightarrow> 's DatabaseSeeder \<Rightarrow> string list \<Rightarrow> (error + string list) option" where
  "sortByDependencies k ds names =
     (case visit_names k (seeders ds) (config ds) names ({}, []) of
        None \<Rightarrow> None
      | Some (Inl e) \<Rightarrow> Some (Inl e)
      | Some (Inr (visited, sortd)) \<Rightarrow> Some (Inr sortd))"

text \<open>\<^verbatim>\<open>process.env.NODE_ENV || 'development'\<close>: unset and empty both give the default.\<close>

definition node_env :: "string option \<Rightarrow> string" where
  "node_env NODE_ENV =
     (case NODE_ENV of None \<Rightarrow> ''development'' | Some v \<Rightarrow> if v = [] then ''development'' else v)"

text \<open>The environment gate of \<^verbatim>\<open>runSeeder\<close>: a declared list that lacks the current environment.\<close>

definition skipped :: "string option \<Rightarrow> (string \<times> SeederConfig) list \<Rightarrow> string \<Rightarrow> bool" where
  "skipped NODE_ENV cfgs nm =
     (case map_of cfgs nm of
        None \<Rightarrow> False
      | Some c \<Rightarrow> (case environment c of None \<Rightarrow> False | Some envs \<Rightarrow> node_env NODE_ENV \<notin> set envs))"

text \<open>
  \<^verbatim>\<open>runSeeder\<close>: unknown name, environment gate, optional truncate (\<^verbatim>\<open>truncateTable\<close> only
  logs), then the seed function on the store.
\<close>

definition runSeeder ::
  "string option \<Rightarrow> 's DatabaseSeeder \<Rightarrow> string \<Rightarrow> (error + unit) \<times> 's DatabaseSeeder" where
  "runSeeder NODE_ENV ds nm =
     (case map_of (seeders ds) nm of
        None \<Rightarrow> (Inl (Error (''Seeder not found: '' @ nm)), ds)
      | Some seeder \<Rightarrow>
          (if skipped NODE_ENV (config ds) nm then (Inr (), ds)
           else
             (let ds1 = (case map_of (config ds) nm of
                           None \<Rightarrow> ds
                         | Some c \<Rightarrow> if cfg_truncate c = Some True
                                     then ds\<lparr>calls := calls ds @ [Truncated nm]\<rparr> else ds);
                  ds2 = ds1\<lparr>calls := calls ds1 @ [Seeded nm]\<rparr>
              in case seeder (prisma ds2) of
                   Inl e \<Rightarrow> (Inl e, ds2)
                 | Inr store \<Rightarrow> (Inr (), ds2\<lparr>prisma := store\<rparr>))))"

text \<open>The loop of \<^verbatim>\<open>seed\<close>: one \<^verbatim>\<open>await this.runSeeder(name)\<close> after the other; a throw ends it.\<close>

fun seed_loop ::
  "string option \<Rightarrow> 's DatabaseSeeder \<Rightarrow> string list \<Rightarrow> (error + unit) \<times> 's DatabaseSeeder" where
  "seed_loop NODE_ENV ds [] = (Inr (), ds)"
| "seed_loop NODE_ENV ds (nm # sortedNames) =
     (case runSeeder NODE_ENV ds nm of
        (Inl e, ds') \<Rightarrow> (Inl e, ds')
      | (Inr _, ds') \<Rightarrow> seed_loop NODE_ENV ds' sortedNames)"

definition seed ::
  "nat \<Rightarrow> string option \<Rightarrow> 's DatabaseSeeder \<Rightarrow> string list \<Rightarrow>
   ((error + unit) \<times> 's DatabaseSeeder) option" where
  "seed k NODE_ENV ds names =
     (case sortByDependencies k ds names of
        None \<Rightarrow> None
      | Some (Inl e) \<Rightarrow> Some (Inl e, ds)
      | Some (Inr sortedNames) \<Rightarrow> Some (seed_loop NODE_ENV ds sortedNames))"

definition seedAll ::
  "nat \<Rightarrow> string option \<Rightarrow> 's DatabaseSeeder \<Rightarrow> ((error + unit) \<times> 's DatabaseSeeder) option" where
  "seedAll k NODE_ENV ds = seed k NODE_ENV ds (map fst (seeders ds))"

text \<open>The dependency edges of the registered configurations, and the seed functions started.\<close>

definition dep_edges :: "(string \<times> SeederConfig) list \<Rightarrow> (string \<times> string) set" where
  "dep_edges cfgs = {(nm, dep). dep \<in> set (deps_of cfgs nm)}"

definition seeded :: "seed_call list \<Rightarrow> string list" where
  "seeded cs = concat (map (\<lambda>c. case c of Seeded nm \<Rightarrow> [nm] | Truncated _ \<Rightarrow> []) cs)"

text \<open>Every dependency of \<open>n\<close> is registered and lies in \<open>V\<close>.\<close>

definition closed_under ::
  "(string \<times> 'f) list \<Rightarrow> (string \<times> SeederConfig) list \<Rightarrow> string set \<Rightarrow> string \<Rightarrow> bool" where
  "closed_under sds cfgs V n = (\<forall>d\<in>set (deps_of cfgs n). d \<in> V \<and> map_of sds d \<noteq> None)"

text \<open>
  \<open>precedes xs a b\<close>: reading \<open>xs\<close> from the left, \<open>a\<close> is met before any \<open>b\<close>
  (or \<open>b\<close> is never met).
\<close>

fun precedes :: "'a list \<Rightarrow> 'a \<Rightarrow> 'a \<Rightarrow> bool" where
  "precedes [] a b = True"
| "precedes (x # xs) a b = (if x = a then True else if x = b then False else precedes xs a b)"

text \<open>A list of names is in dependency order when every name comes after its dependencies.\<close>

definition topo :: "(string \<times> SeederConfig) list \<Rightarrow> string list \<Rightarrow> bool" where
  "topo cfgs xs = (\<forall>n\<in>set xs. \<forall>d\<in>set (deps_of cfgs n). precedes xs d n)"

subsection \<open>Concrete seeders\<close>

definition new_DatabaseSeeder :: "'s \<Rightarrow> 's DatabaseSeeder" where
  "new_DatabaseSeeder store = \<lparr>prisma = store, seeders = [], config = [], calls = []\<rparr>"

definition no_config :: SeederConfig where
  "no_config = \<lparr>cfg_truncate = None, dependencies = None, environment = None\<rparr>"

definition insert_row :: "string \<Rightarrow> string list \<Rightarrow> error + string list" where
  "insert_row row store = Inr (store @ [row])"

definition roles_users :: "string list DatabaseSeeder" where
  "roles_users =
     register_seeder
       (register_seeder (new_DatabaseSeeder []) ''roles'' (insert_row ''role'') no_config)
       ''users'' (insert_row ''user'')
       \<lparr>cfg_truncate = None, dependencies = Some [''roles''], environment = Some [''test'']\<rparr>"

definition users_only :: "string list DatabaseSeeder" where
  "users_only =
     register_seeder (new_DatabaseSeeder []) ''users'' (insert_row ''user'')
       \<lparr>cfg_truncate = None, dependencies = Some [''roles''], environment = None\<rparr>"

definition cyclic_seeders :: "string list DatabaseSeeder" where
  "cyclic_seeders =
     register_seeder
       (register_seeder (new_DatabaseSeeder []) ''a'' (insert_row ''a'')
          \<lparr>cfg_truncate = None, dependencies = Some [''b''], environment = None\<rparr>)
       ''b'' (insert_row ''b'')
       \<lparr>cfg_truncate = None, dependencies = Some [''a''], environment = None\<rparr>"

section \<open>FixtureManager (fixture.manager.ts)\<close>

datatype Scope = scope_test | scope_suite | scope_global

text \<open>
  A \<^verbatim>\<open>setup\<close> or \<^verbatim>\<open>teardown\<close> callback is an async function of the test author.  It is
  modelled by the promise it returns: \<open>Immediately r\<close> returns a promise that is already
  settled (an async body that finishes or throws without awaiting), \<open>Later r\<close> returns a
  pending promise that the host settles in a later turn of the event loop (timers,
  I/O).  \<open>r\<close> is the error thrown, if any.
\<close>

datatype callback = Immediately "error option" | Later "error option"

fun outcome :: "callback \<Rightarrow> error option" where
  "outcome (Immediately r) = r"
| "outcome (Later r) = r"

text \<open>
  \<^verbatim>\<open>FixtureConfig\<close> of \<^verbatim>\<open>data.types.ts\<close>.  The fields carry the prefix \<open>fx_\<close>: \<^verbatim>\<open>setup\<close> is
  a keyword here, and a constant \<open>name\<close> would capture the variables of that name.
  An optional field is an \<open>option\<close>.
\<close>

record FixtureConfig =
  fx_name :: string
  fx_scope :: Scope
  fx_dependencies :: "string list option"
  fx_setup :: "callback option"
  fx_teardown :: "callback option"

text \<open>
  \<open>events\<close> is instrumentation: the lines the manager writes to the logger, the calls
  of the callbacks, the settling of their promises, and what an awaiting caller sees.
\<close>

datatype event =
    Loading string
  | SetupStarted string
  | SetupSettled string
  | LoadedOk string
  | LoadFailed string
  | Unloading string
  | TeardownStarted string
  | UnloadedOk string
  | UnloadFailed string
  | Resolved string
  | RejectedWith string error

record FixtureManager =
  fixtures :: "(string \<times> FixtureConfig) list"
  loadedFixtures :: "string list"
  setupPromises :: "(string \<times> nat) list"
  events :: "event list"

definition fixture_not_found :: "string \<Rightarrow> error" where
  "fixture_not_found fixtureName = Error (''Fixture not found: '' @ fixtureName)"

definition log_event :: "event \<Rightarrow> 'a FixtureManager_scheme \<Rightarrow> 'a FixtureManager_scheme" where
  "log_event e m = m\<lparr>events := events m @ [e]\<rparr>"

definition register_fixture ::
  "'a FixtureManager_scheme \<Rightarrow> FixtureConfig \<Rightarrow> error + 'a FixtureManager_scheme" where
  "register_fixture m cfg =
     (if map_of (fixtures m) (fx_name cfg) \<noteq> None
      then Inl (Error (''Fixture already registered: '' @ fx_name cfg))
      else Inr (m\<lparr>fixtures := AList.update (fx_name cfg) cfg (fixtures m)\<rparr>))"

definition isLoaded :: "'a FixtureManager_scheme \<Rightarrow> string \<Rightarrow> bool" where
  "isLoaded m fixtureName = (fixtureName \<in> set (loadedFixtures m))"

text \<open>
  \<^verbatim>\<open>Set.add\<close> on the insertion-ordered set of loaded names; \<^verbatim>\<open>Set.delete\<close> is
  \<^const>\<open>removeAll\<close>.
\<close>

definition set_add :: "string \<Rightarrow> string list \<Rightarrow> string list" where
  "set_add x xs = (if x \<in> set xs then xs else xs @ [x])"

definition reset :: "'a FixtureManager_scheme \<Rightarrow> 'a FixtureManager_scheme" where
  "reset m = m\<lparr>loadedFixtures := [], setupPromises := []\<rparr>"

subsection \<open>unload\<close>

text \<open>
  \<^verbatim>\<open>unload\<close> for a call that runs alone: nothing else touches the manager between an
  \<^verbatim>\<open>await\<close> and its continuation, so each \<^verbatim>\<open>await\<close> is a sequential step, and a teardown
  callback counts by its outcome.  The first argument bounds the depth of the recursion
  through dependents; \<open>None\<close> means the depth was not enough.  \<open>unload_dependents\<close> is
  the loop over \<^verbatim>\<open>this.fixtures.entries()\<close>.
\<close>

definition depends_on :: "FixtureConfig \<Rightarrow> string \<Rightarrow> bool" where
  "depends_on fix fixtureName =
     (case fx_dependencies fix of None \<Rightarrow> False | Some deps \<Rightarrow> fixtureName \<in> set deps)"

text \<open>
  The tail of \<^verbatim>\<open>unload\<close> after the dependents: the teardown callback, when there is
  one, then \<^verbatim>\<open>loadedFixtures.delete\<close>; a throwing teardown goes through the \<^verbatim>\<open>catch\<close>.
\<close>

definition unload_self ::
  "string \<Rightarrow> FixtureConfig \<Rightarrow> 'a FixtureManager_scheme \<Rightarrow> (error + unit) \<times> 'a FixtureManager_scheme" where
  "unload_self fixtureName fixture m =
     (let m1 = (case fx_teardown fixture of
                  None \<Rightarrow> m
                | Some cb \<Rightarrow> log_event (TeardownStarted fixtureName) m)
      in case (case fx_teardown fixture of None \<Rightarrow> None | Some cb \<Rightarrow> outcome cb) of
           Some e \<Rightarrow> (Inl e, log_event (UnloadFailed fixtureName) m1)
         | None \<Rightarrow>
             (Inr (),
              log_event (UnloadedOk fixtureName)
                (m1\<lparr>loadedFixtures := removeAll fixtureName (loadedFixtures m1)\<rparr>)))"

fun unload ::
    "nat \<Rightarrow> string \<Rightarrow> 'a FixtureManager_scheme \<Rightarrow> ((error + unit) \<times> 'a FixtureManager_scheme) option"
  and unload_dependents ::
    "nat \<Rightarrow> string \<Rightarrow> (string \<times> FixtureConfig) list \<Rightarrow> 'a FixtureManager_scheme \<Rightarrow>
     ((error + unit) \<times> 'a FixtureManager_scheme) option" where
  "unload 0 fixtureName m = None"
| "unload (Suc k) fixtureName m =
     (case map_of (fixtures m) fixtureName of
        None \<Rightarrow> Some (Inl (fixture_not_found fixtureName), m)
      | Some fixture \<Rightarrow>
          (if fixtureName \<notin> set (loadedFixtures m) then Some (Inr (), m)
           else
             (case unload_dependents k fixtureName (fixtures m) (log_event (Unloading fixtureName) m) of
                None \<Rightarrow> None
              | Some (Inl e, m1) \<Rightarrow> Some (Inl e, log_event (UnloadFailed fixtureName) m1)
              | Some (Inr _, m1) \<Rightarrow> Some (unload_self fixtureName fixture m1))))"
| "unload_dependents k fixtureName [] m = Some (Inr (), m)"
| "unload_dependents k fixtureName ((n, fix) # rest) m =
     (if depends_on fix fixtureName
      then
        (case unload k n m of
           None \<Rightarrow> None
         | Some (Inl e, m1) \<Rightarrow> Some (Inl e, m1)
         | Some (Inr _, m1) \<Rightarrow> unload_dependents k fixtureName rest m1)
      else unload_dependents k fixtureName rest m)"

text \<open>\<^verbatim>\<open>unloadAll\<close>: \<^verbatim>\<open>unload\<close> over a snapshot of the loaded names.\<close>

fun unloadAll_loop ::
  "nat \<Rightarrow> string list \<Rightarrow> 'a FixtureManager_scheme \<Rightarrow>
   ((error + unit) \<times> 'a FixtureManager_scheme) option" where
  "unloadAll_loop k [] m = Some (Inr (), m)"
| "unloadAll_loop k (fixture # rest) m =
     (case unload k fixture m of
        None \<Rightarrow> None
      | Some (Inl e, m1) \<Rightarrow> Some (Inl e, m1)
      | Some (Inr _, m1) \<Rightarrow> unloadAll_loop k rest m1)"

definition unloadAll ::
  "nat \<Rightarrow> 'a FixtureManager_scheme \<Rightarrow> ((error + unit) \<times> 'a FixtureManager_scheme) option" where
  "unloadAll k m = unloadAll_loop k (loadedFixtures m) m"

text \<open>No loaded fixture has a dependency that is not loaded.\<close>

definition deps_loaded :: "'a FixtureManager_scheme \<Rightarrow> bool" where
  "deps_loaded m =
     (\<forall>(n, fix)\<in>set (fixtures m). n \<in> set (loadedFixtures m) \<longrightarrow>
        (\<forall>d. depends_on fix d \<longrightarrow> d \<in> set (loadedFixtures m)))"

subsection \<open>Promises and the event loop\<close>

text \<open>
  \<^verbatim>\<open>load\<close> is an async function, and several calls may be in progress at once, so it is
  modelled on the event loop itself.  A promise is an index into \<open>heap\<close>.  A \<open>frame\<close>
  is a suspended continuation: the place where an async function waits, with the
  locals it needs.  \<open>reactions\<close> are the frames registered on pending promises,
  \<open>microtasks\<close> the job queue (first in, first out), \<open>pending_io\<close> the promises of
  \<open>Later\<close> callbacks that the host has yet to settle, \<open>counters\<close> the remaining-element
  counts of \<^verbatim>\<open>Promise.all\<close>.
\<close>

datatype promise_state = Pending | Fulfilled | Rejected error

datatype frame =
    Load_await_deps string FixtureConfig nat
  | Iife_await_setup string nat
  | Load_await_setup string nat
  | All_element nat
  | Adopt nat
  | Caller_await string

datatype job = Run frame promise_state | Then_job nat nat

record runtime = FixtureManager +
  heap :: "promise_state list"
  reactions :: "(nat \<times> frame) list"
  microtasks :: "job list"
  pending_io :: "(nat \<times> string \<times> error option) list"
  counters :: "(nat \<times> nat) list"

definition new_runtime :: runtime where
  "new_runtime =
     \<lparr>fixtures = [], loadedFixtures = [], setupPromises = [], events = [],
      heap = [], reactions = [], microtasks = [], pending_io = [], counters = []\<rparr>"

definition promise_at :: "runtime \<Rightarrow> nat \<Rightarrow> promise_state" where
  "promise_at w p = (if p < length (heap w) then heap w ! p else Pending)"

definition new_promise :: "runtime \<Rightarrow> nat \<times> runtime" where
  "new_promise w = (length (heap w), w\<lparr>heap := heap w @ [Pending]\<rparr>)"

text \<open>
  Settling a pending promise queues its reactions, in the order they were registered;
  settling a settled promise does nothing.
\<close>

definition settle :: "nat \<Rightarrow> promise_state \<Rightarrow> runtime \<Rightarrow> runtime" where
  "settle p r w =
     (if p < length (heap w) \<and> heap w ! p = Pending
      then w\<lparr>heap := (heap w)[p := r],
             reactions := filter (\<lambda>(q, fr). q \<noteq> p) (reactions w),
             microtasks := microtasks w @
               map (\<lambda>(q, fr). Run fr r) (filter (\<lambda>(q, fr). q = p) (reactions w))\<rparr>
      else w)"

text \<open>\<^verbatim>\<open>await p\<close> and \<^verbatim>\<open>p.then(...)\<close>: a job at once when \<open>p\<close> is settled, a reaction otherwise.\<close>

definition subscribe :: "nat \<Rightarrow> frame \<Rightarrow> runtime \<Rightarrow> runtime" where
  "subscribe p fr w =
     (case promise_at w p of
        Pending \<Rightarrow> w\<lparr>reactions := reactions w @ [(p, fr)]\<rparr>
      | Fulfilled \<Rightarrow> w\<lparr>microtasks := microtasks w @ [Run fr Fulfilled]\<rparr>
      | Rejected e \<Rightarrow> w\<lparr>microtasks := microtasks w @ [Run fr (Rejected e)]\<rparr>)"

text \<open>\<^verbatim>\<open>Promise.all(ps)\<close>: fulfilled at once for no elements, else one reaction per element.\<close>

definition promise_all :: "nat list \<Rightarrow> runtime \<Rightarrow> nat \<times> runtime" where
  "promise_all ps w =
     (let (pa, w1) = new_promise w
      in if ps = [] then (pa, settle pa Fulfilled w1)
         else (pa, fold (\<lambda>p. subscribe p (All_element pa)) ps
                     (w1\<lparr>counters := AList.update pa (length ps) (counters w1)\<rparr>)))"

fun all_element :: "nat \<Rightarrow> promise_state \<Rightarrow> runtime \<Rightarrow> runtime" where
  "all_element pa (Rejected e) w = settle pa (Rejected e) w"
| "all_element pa Fulfilled w =
     (case map_of (counters w) pa of
        None \<Rightarrow> w
      | Some n \<Rightarrow>
          (let w1 = w\<lparr>counters := AList.update pa (n - 1) (counters w)\<rparr>
           in if n - 1 = 0 then settle pa Fulfilled w1 else w1))"
| "all_element pa Pending w = w"

text \<open>Calling \<^verbatim>\<open>fixture.setup()\<close>: the promise it returns.\<close>

fun call_setup :: "string \<Rightarrow> callback \<Rightarrow> runtime \<Rightarrow> nat \<times> runtime" where
  "call_setup fixtureName (Immediately r) w =
     (let (sp, w1) = new_promise (log_event (SetupStarted fixtureName) w)
      in (sp, log_event (SetupSettled fixtureName)
                (w1\<lparr>heap := (heap w1)[sp := (case r of None \<Rightarrow> Fulfilled | Some e \<Rightarrow> Rejected e)]\<rparr>)))"
| "call_setup fixtureName (Later r) w =
     (let (sp, w1) = new_promise (log_event (SetupStarted fixtureName) w)
      in (sp, w1\<lparr>pending_io := pending_io w1 @ [(sp, fixtureName, r)]\<rparr>))"

text \<open>The end of the IIFE (lines 236-237): \<^verbatim>\<open>loadedFixtures.add\<close>, \<^verbatim>\<open>setupPromises.delete\<close>.\<close>

definition iife_finish :: "string \<Rightarrow> nat \<Rightarrow> runtime \<Rightarrow> runtime" where
  "iife_finish fixtureName ip w =
     settle ip Fulfilled
       (w\<lparr>loadedFixtures := set_add fixtureName (loadedFixtures w),
          setupPromises := AList.delete fixtureName (setupPromises w)\<rparr>)"

text \<open>
  Lines 231-241: the IIFE runs up to its first \<^verbatim>\<open>await\<close> (to its end when there is no
  \<^verbatim>\<open>setup\<close>), then \<^verbatim>\<open>setupPromises.set\<close>, then \<^verbatim>\<open>await setupPromise\<close>.
\<close>

definition load_setup :: "string \<Rightarrow> FixtureConfig \<Rightarrow> nat \<Rightarrow> runtime \<Rightarrow> runtime" where
  "load_setup fixtureName fixture rp w =
     (let (ip, w1) = new_promise w;
          w2 = (case fx_setup fixture of
                  None \<Rightarrow> iife_finish fixtureName ip w1
                | Some cb \<Rightarrow>
                    (let (sp, w') = call_setup fixtureName cb w1
                     in subscribe sp (Iife_await_setup fixtureName ip) w'));
          w3 = w2\<lparr>setupPromises := AList.update fixtureName ip (setupPromises w2)\<rparr>
      in subscribe ip (Load_await_setup fixtureName rp) w3)"

text \<open>
  \<^verbatim>\<open>load\<close> up to its first \<^verbatim>\<open>await\<close>; the result is the promise of the call.  The calls
  \<^verbatim>\<open>this.load(dep)\<close> inside \<^verbatim>\<open>map\<close> run one after the other in the same synchronous
  pass (\<open>load_deps\<close>).  The first argument bounds the depth of that recursion; \<open>None\<close>
  means the depth was not enough.
\<close>

fun load :: "nat \<Rightarrow> string \<Rightarrow> runtime \<Rightarrow> (nat \<times> runtime) option"
  and load_deps :: "nat \<Rightarrow> string list \<Rightarrow> runtime \<Rightarrow> (nat list \<times> runtime) option" where
  "load 0 fixtureName w = None"
| "load (Suc k) fixtureName w =
     (let (rp, w1) = new_promise w
      in case map_of (fixtures w1) fixtureName of
           None \<Rightarrow> Some (rp, settle rp (Rejected (fixture_not_found fixtureName)) w1)
         | Some fixture \<Rightarrow>
             (case map_of (setupPromises w1) fixtureName of
                Some p \<Rightarrow> Some (rp, w1\<lparr>microtasks := microtasks w1 @ [Then_job rp p]\<rparr>)
              | None \<Rightarrow>
                  (if fixtureName \<in> set (loadedFixtures w1) then Some (rp, settle rp Fulfilled w1)
                   else
                     (let w2 = log_event (Loading fixtureName) w1
                      in case fx_dependencies fixture of
                           None \<Rightarrow> Some (rp, load_setup fixtureName fixture rp w2)
                         | Some deps \<Rightarrow>
                             (case load_deps k deps w2 of
                                None \<Rightarrow> None
                              | Some (ps, w3) \<Rightarrow>
                                  (let (pa, w4) = promise_all ps w3
                                   in Some (rp,
                                        subscribe pa (Load_await_deps fixtureName fixture rp) w4)))))))"
| "load_deps k [] w = Some ([], w)"
| "load_deps k (dep # deps) w =
     (case load k dep w of
        None \<Rightarrow> None
      | Some (p, w1) \<Rightarrow>
          (case load_deps k deps w1 of
             None \<Rightarrow> None
           | Some (ps, w2) \<Rightarrow> Some (p # ps, w2)))"

text \<open>Running one job: a thenable job, or a frame resumed with the state of its promise.\<close>

fun run_job :: "job \<Rightarrow> runtime \<Rightarrow> runtime" where
  "run_job (Then_job rp q) w = subscribe q (Adopt rp) w"
| "run_job (Run (Adopt rp) r) w = settle rp r w"
| "run_job (Run (All_element pa) r) w = all_element pa r w"
| "run_job (Run (Load_await_deps fixtureName fixture rp) r) w =
     (case r of
        Rejected e \<Rightarrow> settle rp (Rejected e) (log_event (LoadFailed fixtureName) w)
      | Fulfilled \<Rightarrow> load_setup fixtureName fixture rp w
      | Pending \<Rightarrow> w)"
| "run_job (Run (Iife_await_setup fixtureName ip) r) w =
     (case r of
        Rejected e \<Rightarrow> settle ip (Rejected e) w
      | Fulfilled \<Rightarrow> iife_finish fixtureName ip w
      | Pending \<Rightarrow> w)"
| "run_job (Run (Load_await_setup fixtureName rp) r) w =
     (case r of
        Rejected e \<Rightarrow> settle rp (Rejected e) (log_event (LoadFailed fixtureName) w)
      | Fulfilled \<Rightarrow> settle rp Fulfilled (log_event (LoadedOk fixtureName) w)
      | Pending \<Rightarrow> w)"
| "run_job (Run (Caller_await fixtureName) r) w =
     (case r of
        Rejected e \<Rightarrow> log_event (RejectedWith fixtureName e) w
      | Fulfilled \<Rightarrow> log_event (Resolved fixtureName) w
      | Pending \<Rightarrow> w)"

definition tick :: "runtime \<Rightarrow> runtime" where
  "tick w = (case microtasks w of [] \<Rightarrow> w | j # js \<Rightarrow> run_job j (w\<lparr>microtasks := js\<rparr>))"

text \<open>Run the queue until it is empty; \<open>None\<close> when the bound is reached first.\<close>

fun drain :: "nat \<Rightarrow> runtime \<Rightarrow> runtime option" where
  "drain 0 w = (if microtasks w = [] then Some w else None)"
| "drain (Suc k) w = (if microtasks w = [] then Some w else drain k (tick w))"

text \<open>The host settles the promise of a \<open>Later\<close> callback.\<close>

definition io_done :: "nat \<Rightarrow> runtime \<Rightarrow> runtime" where
  "io_done sp w =
     (case map_of (pending_io w) sp of
        None \<Rightarrow> w
      | Some (fixtureName, r) \<Rightarrow>
          settle sp (case r of None \<Rightarrow> Fulfilled | Some e \<Rightarrow> Rejected e)
            (log_event (SetupSettled fixtureName)
               (w\<lparr>pending_io := AList.delete sp (pending_io w)\<rparr>)))"

text \<open>
  Test code.  \<open>Calls names\<close> is one synchronous block \<^verbatim>\<open>load(n1).then(..); load(n2).then(..)\<close>:
  the calls overlap.  Each action is one turn of the event loop: the queue is drained
  after it.
\<close>

datatype action = Calls "string list" | Io_done nat | Unload_call string | Reset_call

fun call_all :: "nat \<Rightarrow> string list \<Rightarrow> runtime \<Rightarrow> runtime option" where
  "call_all k [] w = Some w"
| "call_all k (fixtureName # names) w =
     (case load k fixtureName w of
        None \<Rightarrow> None
      | Some (rp, w1) \<Rightarrow> call_all k names (subscribe rp (Caller_await fixtureName) w1))"

fun perform :: "nat \<Rightarrow> action \<Rightarrow> runtime \<Rightarrow> runtime option" where
  "perform k (Calls names) w = call_all k names w"
| "perform k (Io_done sp) w = Some (io_done sp w)"
| "perform k (Unload_call fixtureName) w = map_option snd (unload k fixtureName w)"
| "perform k Reset_call w = Some (reset w)"

fun exec :: "nat \<Rightarrow> action list \<Rightarrow> runtime \<Rightarrow> runtime option" where
  "exec k [] w = Some w"
| "exec k (a # as) w =
     (case perform k a w of
        None \<Rightarrow> None
      | Some w1 \<Rightarrow> (case drain k w1 of None \<Rightarrow> None | Some w2 \<Rightarrow> exec k as w2))"

text \<open>A manager with the given fixtures registered, in order.\<close>

fun registered :: "FixtureConfig list \<Rightarrow> runtime \<Rightarrow> runtime" where
  "registered [] w = w"
| "registered (cfg # cfgs) w =
     (case register_fixture w cfg of Inl e \<Rightarrow> registered cfgs w | Inr w1 \<Rightarrow> registered cfgs w1)"

subsection \<open>Auxiliary notions for the proofs\<close>

text \<open>No fixture that stays loaded loses a dependency.\<close>

definition keeps_deps :: "'a FixtureManager_scheme \<Rightarrow> 'a FixtureManager_scheme \<Rightarrow> bool" where
  "keeps_deps m m' =
     (\<forall>(n, fix)\<in>set (fixtures m). n \<in> set (loadedFixtures m') \<longrightarrow>
        (\<forall>d. depends_on fix d \<and> d \<in> set (loadedFixtures m) \<longrightarrow> d \<in> set (loadedFixtures m')))"

text \<open>
  \<open>grows N w w'\<close>: the fixtures are the same, and the promises below \<open>N\<close> are as they
  were.
\<close>

definition grows :: "nat \<Rightarrow> runtime \<Rightarrow> runtime \<Rightarrow> bool" where
  "grows N w w' \<longleftrightarrow>
     fixtures w' = fixtures w \<and> length (heap w) \<le> length (heap w')
     \<and> take N (heap w') = take N (heap w)"

definition pass_effect :: "runtime \<Rightarrow> runtime \<Rightarrow> bool" where
  "pass_effect w w' \<longleftrightarrow>
     (\<forall>x. x \<in> set (loadedFixtures w) \<longrightarrow> x \<in> set (loadedFixtures w'))
   \<and> (\<forall>x. map_of (setupPromises w) x \<noteq> None \<longrightarrow> map_of (setupPromises w') x \<noteq> None)
   \<and> (\<forall>x. x \<in> set (loadedFixtures w') \<and> x \<notin> set (loadedFixtures w) \<longrightarrow>
          map_of (setupPromises w') x \<noteq> None)
   \<and> (\<forall>x. map_of (setupPromises w') x \<noteq> map_of (setupPromises w) x
            \<or> x \<in> set (loadedFixtures w') \<and> x \<notin> set (loadedFixtures w) \<longrightarrow>
          (\<exists>f. map_of (fixtures w) x = Some f \<and> fx_dependencies f = None))"

text \<open>The callbacks started in one synchronous pass belong to fixtures without a dependency list.\<close>

definition pass_events :: "runtime \<Rightarrow> runtime \<Rightarrow> bool" where
  "pass_events w w' \<longleftrightarrow>
     (\<exists>es. events w' = events w @ es \<and>
        (\<forall>x. SetupStarted x \<in> set es \<longrightarrow>
           (\<exists>f. map_of (fixtures w) x = Some f \<and> fx_dependencies f = None)))"




subsection \<open>Concrete fixtures\<close>

definition mk_fixture :: "string \<Rightarrow> string list option \<Rightarrow> callback option \<Rightarrow> FixtureConfig" where
  "mk_fixture n deps su =
     \<lparr>fx_name = n, fx_scope = scope_test, fx_dependencies = deps, fx_setup = su, fx_teardown = None\<rparr>"


definition twice_a :: runtime where
  "twice_a = registered [mk_fixture ''a'' (Some []) (Some (Later None))] new_runtime"

definition once_a :: runtime where
  "once_a = registered [mk_fixture ''a'' None (Some (Later None))] new_runtime"


definition shared_dep :: runtime where
  "shared_dep = registered [mk_fixture ''e'' (Some []) (Some (Later None)),
                            mk_fixture ''d'' (Some [''e'']) (Some (Later None)),
                            mk_fixture ''f'' (Some [''d'']) (Some (Later None)),
                            mk_fixture ''top'' (Some [''f'', ''d'']) None] new_runtime"

definition db_seedData :: runtime where
  "db_seedData = registered [mk_fixture ''db'' None (Some (Immediately None)),
                             mk_fixture ''seedData'' (Some [''db'']) (Some (Immediately None))] new_runtime"

definition plain_x :: runtime where
  "plain_x = registered [mk_fixture ''x'' None None,
                         mk_fixture ''y'' (Some [''x'']) (Some (Immediately None))] new_runtime"


definition state_after :: "nat \<Rightarrow> action list \<Rightarrow> runtime \<Rightarrow> runtime" where
  "state_after k as w = (case exec k as w of None \<Rightarrow> w | Some w' \<Rightarrow> w')"


definition db_seedData_loaded :: FixtureManager where
  "db_seedData_loaded =
     \<lparr>fixtures = [(''db'', mk_fixture ''db'' None (Some (Immediately None))),
                  (''seedData'', mk_fixture ''seedData'' (Some [''db'']) (Some (Immediately None)))],
      loadedFixtures = [''db'', ''seedData''], setupPromises = [], events = []\<rparr>"

section \<open>Properties of FactoryManager\<close>

lemma cleanup_loop_filter:
  "cleanup_loop strategies strategy ents cur =
     filter (\<lambda>(n, b). \<not> (n \<in> fst ` set ents \<and> map_of strategies n = Some strategy)) cur"
proof (induction ents arbitrary: cur)
  case Nil
  then show ?case by simp
next
  case (Cons e ents)
  obtain n b where e: "e = (n, b)" by (cases e)
  show ?case
    unfolding e using Cons.IH
    by (auto simp: AList.delete_eq intro!: filter_cong)
qed



lemma entities_cleanup:
  "entities (state (cleanup fm s)) =
     filter (\<lambda>(n, b). map_of (cleanupStrategies (state fm)) n \<noteq> Some s) (entities (state fm))"
  unfolding cleanup_def cleanup_loop_filter
  by (auto intro!: filter_cong simp: rev_image_eqI)








text \<open>
  After \<^verbatim>\<open>reset\<close> no entity type has a strategy any more, although its factory still
  creates and tracks: until the type is defined again, no \<^verbatim>\<open>cleanup\<close> removes its bucket.
\<close>

lemma cleanup_after_reset:
  "factories (reset_factory fm) = factories fm
   \<and> entities (state (cleanup (snd (create (reset_factory fm) e opts)) s)) =
       entities (state (snd (create (reset_factory fm) e opts)))"
  by (simp add: entities_cleanup reset_factory_def create_def trackEntity_def Let_def
      split: option.splits sum.splits)



section \<open>Properties of DatabaseSeeder\<close>

lemma visit_frame:
  "visit k sds cfgs nm st = Some (Inr st') \<Longrightarrow>
     fst st \<subseteq> fst st' \<and> (\<exists>T. snd st' = snd st @ T) \<and> fst st' - set (snd st') = fst st - set (snd st)
     \<and> nm \<in> fst st'"
  and visit_deps_frame:
  "visit_deps k sds cfgs nm deps st = Some (Inr st') \<Longrightarrow>
     fst st \<subseteq> fst st' \<and> (\<exists>T. snd st' = snd st @ T) \<and> fst st' - set (snd st') = fst st - set (snd st)
     \<and> set deps \<subseteq> fst st' \<and> (\<forall>d\<in>set deps. map_of sds d \<noteq> None)"
proof (induction k sds cfgs nm st and k sds cfgs nm deps st arbitrary: st' and st' rule: visit_visit_deps.induct)
  case (1 sds cfgs nm visited sortd)
  then show ?case by simp
next
  case (2 k sds cfgs nm visited sortd)
  show ?case
  proof (cases "nm \<in> visited")
    case True
    with 2 show ?thesis by auto
  next
    case False
    with "2.prems" obtain V2 S2 where
      d: "visit_deps k sds cfgs nm (deps_of cfgs nm) (insert nm visited, sortd) = Some (Inr (V2, S2))"
      and st': "st' = (V2, S2 @ [nm])"
      by (auto split: option.splits sum.splits prod.splits)
    from "2.IH"[OF False d] show ?thesis
      using False unfolding st' by auto
  qed
next
  case (3 k sds cfgs nm st)
  then show ?case by simp
next
  case (4 k sds cfgs nm dep deps st)
  from "4.prems" have reg: "map_of sds dep \<noteq> None" by (auto split: if_splits)
  with "4.prems" obtain st1 where
    v: "visit k sds cfgs dep st = Some (Inr st1)"
    and r: "visit_deps k sds cfgs nm deps st1 = Some (Inr st')"
    by (auto split: option.splits sum.splits if_splits)
  from "4.IH"(1)[OF reg v] "4.IH"(2)[OF reg v refl r] reg
  show ?case by auto
qed

lemma visit_sub:
  "visit k sds cfgs nm st = Some (Inr st') \<Longrightarrow> set (snd st) \<subseteq> fst st \<Longrightarrow>
     set (snd st') \<subseteq> fst st'"
  and visit_deps_sub:
  "visit_deps k sds cfgs nm deps st = Some (Inr st') \<Longrightarrow> set (snd st) \<subseteq> fst st \<Longrightarrow>
     set (snd st') \<subseteq> fst st'"
proof (induction k sds cfgs nm st and k sds cfgs nm deps st arbitrary: st' and st'
    rule: visit_visit_deps.induct)
  case (1 sds cfgs nm visited sortd)
  then show ?case by simp
next
  case (2 k sds cfgs nm visited sortd)
  show ?case
  proof (cases "nm \<in> visited")
    case True
    with 2 show ?thesis by auto
  next
    case False
    with "2.prems" obtain V2 S2 where
      d: "visit_deps k sds cfgs nm (deps_of cfgs nm) (insert nm visited, sortd) = Some (Inr (V2, S2))"
      and st': "st' = (V2, S2 @ [nm])"
      by (auto split: option.splits sum.splits prod.splits)
    from "2.IH"[OF False d] "2.prems"(2) visit_deps_frame[OF d] show ?thesis
      unfolding st' by auto
  qed
next
  case (3 k sds cfgs nm st)
  then show ?case by simp
next
  case (4 k sds cfgs nm dep deps st)
  from "4.prems" have reg: "map_of sds dep \<noteq> None" by (auto split: if_splits)
  with "4.prems" obtain st1 where
    v: "visit k sds cfgs dep st = Some (Inr st1)"
    and r: "visit_deps k sds cfgs nm deps st1 = Some (Inr st')"
    by (auto split: option.splits sum.splits if_splits)
  from "4.IH"(1)[OF reg v] "4.IH"(2)[OF reg v refl r] "4.prems"(2)
  show ?case by auto
qed

lemma visit_distinct:
  "visit k sds cfgs nm st = Some (Inr st') \<Longrightarrow> set (snd st) \<subseteq> fst st \<Longrightarrow> distinct (snd st) \<Longrightarrow>
     distinct (snd st')"
  and visit_deps_distinct:
  "visit_deps k sds cfgs nm deps st = Some (Inr st') \<Longrightarrow> set (snd st) \<subseteq> fst st \<Longrightarrow>
     distinct (snd st) \<Longrightarrow> distinct (snd st')"
proof (induction k sds cfgs nm st and k sds cfgs nm deps st arbitrary: st' and st'
    rule: visit_visit_deps.induct)
  case (1 sds cfgs nm visited sortd)
  then show ?case by simp
next
  case (2 k sds cfgs nm visited sortd)
  show ?case
  proof (cases "nm \<in> visited")
    case True
    with 2 show ?thesis by auto
  next
    case False
    with "2.prems" obtain V2 S2 where
      d: "visit_deps k sds cfgs nm (deps_of cfgs nm) (insert nm visited, sortd) = Some (Inr (V2, S2))"
      and st': "st' = (V2, S2 @ [nm])"
      by (auto split: option.splits sum.splits prod.splits)
    have "nm \<notin> set sortd" using False "2.prems"(2) by auto
    with visit_deps_frame[OF d] have "nm \<notin> set S2" by auto
    with "2.IH"[OF False d] "2.prems"(2,3) show ?thesis
      unfolding st' by auto
  qed
next
  case (3 k sds cfgs nm st)
  then show ?case by simp
next
  case (4 k sds cfgs nm dep deps st)
  from "4.prems" have reg: "map_of sds dep \<noteq> None" by (auto split: if_splits)
  with "4.prems" obtain st1 where
    v: "visit k sds cfgs dep st = Some (Inr st1)"
    and r: "visit_deps k sds cfgs nm deps st1 = Some (Inr st')"
    by (auto split: option.splits sum.splits if_splits)
  from "4.IH"(1)[OF reg v "4.prems"(2,3)] "4.IH"(2)[OF reg v refl r visit_sub[OF v "4.prems"(2)]]
  show ?case by auto
qed

lemma closed_under_mono: "closed_under sds cfgs V n \<Longrightarrow> V \<subseteq> V' \<Longrightarrow> closed_under sds cfgs V' n"
  by (auto simp: closed_under_def)

lemma visit_closed:
  "visit k sds cfgs nm st = Some (Inr st') \<Longrightarrow> \<forall>n\<in>set (snd st). closed_under sds cfgs (fst st) n \<Longrightarrow>
     \<forall>n\<in>set (snd st'). closed_under sds cfgs (fst st') n"
  and visit_deps_closed:
  "visit_deps k sds cfgs nm deps st = Some (Inr st') \<Longrightarrow> \<forall>n\<in>set (snd st). closed_under sds cfgs (fst st) n \<Longrightarrow>
     \<forall>n\<in>set (snd st'). closed_under sds cfgs (fst st') n"
proof (induction k sds cfgs nm st and k sds cfgs nm deps st arbitrary: st' and st'
    rule: visit_visit_deps.induct)
  case (1 sds cfgs nm visited sortd)
  then show ?case by simp
next
  case (2 k sds cfgs nm visited sortd)
  show ?case
  proof (cases "nm \<in> visited")
    case True
    with 2 show ?thesis by auto
  next
    case False
    with "2.prems" obtain V2 S2 where
      d: "visit_deps k sds cfgs nm (deps_of cfgs nm) (insert nm visited, sortd) = Some (Inr (V2, S2))"
      and st': "st' = (V2, S2 @ [nm])"
      by (auto split: option.splits sum.splits prod.splits)
    have "\<forall>n\<in>set sortd. closed_under sds cfgs (insert nm visited) n"
      using "2.prems"(2) by (auto intro: closed_under_mono)
    with "2.IH"[OF False d] have "\<forall>n\<in>set S2. closed_under sds cfgs V2 n" by simp
    moreover have "closed_under sds cfgs V2 nm"
      using visit_deps_frame[OF d] by (auto simp: closed_under_def)
    ultimately show ?thesis unfolding st' by auto
  qed
next
  case (3 k sds cfgs nm st)
  then show ?case by simp
next
  case (4 k sds cfgs nm dep deps st)
  from "4.prems" have reg: "map_of sds dep \<noteq> None" by (auto split: if_splits)
  with "4.prems" obtain st1 where
    v: "visit k sds cfgs dep st = Some (Inr st1)"
    and r: "visit_deps k sds cfgs nm deps st1 = Some (Inr st')"
    by (auto split: option.splits sum.splits if_splits)
  from "4.IH"(1)[OF reg v] "4.IH"(2)[OF reg v refl r] "4.prems"(2)
  show ?case by auto
qed

lemma precedes_absent: "b \<notin> set xs \<Longrightarrow> precedes xs a b"
  by (induction xs) auto

lemma precedes_append:
  "precedes (xs @ ys) a b \<longleftrightarrow>
     precedes xs a b \<and> (a \<in> set xs \<or> b \<in> set xs \<or> precedes ys a b)"
  by (induction xs) auto

lemma precedes_filter_take:
  "precedes xs d n \<Longrightarrow> P d \<Longrightarrow> precedes (filter P (take j xs)) d n"
proof (induction xs arbitrary: j)
  case Nil
  then show ?case by simp
next
  case (Cons x xs)
  then show ?case by (cases j) (auto split: if_splits)
qed

lemma precedes_in_take:
  "precedes xs d n \<Longrightarrow> n \<in> set (take j xs) \<Longrightarrow> d \<in> set (take j xs)"
proof (induction xs arbitrary: j)
  case Nil
  then show ?case by simp
next
  case (Cons x xs)
  then show ?case by (cases j) (auto split: if_splits)
qed

lemma topo_snoc:
  assumes "topo cfgs xs" "nm \<notin> set xs" "set (deps_of cfgs nm) \<subseteq> set xs"
  shows "topo cfgs (xs @ [nm])"
  using assms by (auto simp: topo_def precedes_append precedes_absent)

lemma visit_topo:
  "visit k sds cfgs nm st = Some (Inr st') \<Longrightarrow> acyclic (dep_edges cfgs) \<Longrightarrow>
     set (snd st) \<subseteq> fst st \<Longrightarrow> distinct (snd st) \<Longrightarrow> topo cfgs (snd st) \<Longrightarrow>
     \<forall>a\<in>fst st - set (snd st). (a, nm) \<in> (dep_edges cfgs)\<^sup>+ \<Longrightarrow>
     distinct (snd st') \<and> topo cfgs (snd st') \<and> nm \<in> set (snd st')"
  and visit_deps_topo:
  "visit_deps k sds cfgs nm deps st = Some (Inr st') \<Longrightarrow> acyclic (dep_edges cfgs) \<Longrightarrow>
     set (snd st) \<subseteq> fst st \<Longrightarrow> distinct (snd st) \<Longrightarrow> topo cfgs (snd st) \<Longrightarrow>
     set deps \<subseteq> set (deps_of cfgs nm) \<Longrightarrow>
     \<forall>a\<in>fst st - set (snd st). (a, nm) \<in> (dep_edges cfgs)\<^sup>* \<Longrightarrow>
     distinct (snd st') \<and> topo cfgs (snd st') \<and> set deps \<subseteq> set (snd st')"
proof (induction k sds cfgs nm st and k sds cfgs nm deps st arbitrary: st' and st'
    rule: visit_visit_deps.induct)
  case (1 sds cfgs nm visited sortd)
  then show ?case by simp
next
  case (2 k sds cfgs nm visited sortd)
  show ?case
  proof (cases "nm \<in> visited")
    case True
    have "nm \<in> set sortd"
    proof (rule ccontr)
      assume "nm \<notin> set sortd"
      with True "2.prems"(6) have "(nm, nm) \<in> (dep_edges cfgs)\<^sup>+" by simp
      with "2.prems"(2) show False by (simp add: acyclic_def)
    qed
    with True 2 show ?thesis by auto
  next
    case False
    with "2.prems" obtain V2 S2 where
      d: "visit_deps k sds cfgs nm (deps_of cfgs nm) (insert nm visited, sortd) = Some (Inr (V2, S2))"
      and st': "st' = (V2, S2 @ [nm])"
      by (auto split: option.splits sum.splits prod.splits)
    have anc: "\<forall>a\<in>fst (insert nm visited, sortd) - set (snd (insert nm visited, sortd)).
        (a, nm) \<in> (dep_edges cfgs)\<^sup>*"
      using "2.prems"(6) by auto
    have *: "distinct S2 \<and> topo cfgs S2 \<and> set (deps_of cfgs nm) \<subseteq> set S2"
      using "2.IH"[OF False d "2.prems"(2) _ _ _ _ anc] "2.prems"(3,4,5) by auto
    have "nm \<notin> set sortd" using False "2.prems"(3) by auto
    with visit_deps_frame[OF d] have "nm \<notin> set S2" by auto
    with * show ?thesis unfolding st' by (auto intro: topo_snoc)
  qed
next
  case (3 k sds cfgs nm st)
  then show ?case by simp
next
  case (4 k sds cfgs nm dep deps st)
  from "4.prems" have reg: "map_of sds dep \<noteq> None" by (auto split: if_splits)
  with "4.prems" obtain st1 where
    v: "visit k sds cfgs dep st = Some (Inr st1)"
    and r: "visit_deps k sds cfgs nm deps st1 = Some (Inr st')"
    by (auto split: option.splits sum.splits if_splits)
  have edge: "(nm, dep) \<in> dep_edges cfgs" using "4.prems"(6) by (simp add: dep_edges_def)
  have anc: "\<forall>a\<in>fst st - set (snd st). (a, dep) \<in> (dep_edges cfgs)\<^sup>+"
    using "4.prems"(7) edge by (auto intro: rtrancl_into_trancl1)
  have 1: "distinct (snd st1) \<and> topo cfgs (snd st1) \<and> dep \<in> set (snd st1)"
    using "4.IH"(1)[OF reg v "4.prems"(2,3,4,5) anc] .
  have f: "fst st1 - set (snd st1) = fst st - set (snd st)" "\<exists>T. snd st1 = snd st @ T"
    using visit_frame[OF v] by auto
  have s1: "set (snd st1) \<subseteq> fst st1" using visit_sub[OF v "4.prems"(3)] .
  have 2: "distinct (snd st') \<and> topo cfgs (snd st') \<and> set deps \<subseteq> set (snd st')"
    using "4.IH"(2)[OF reg v refl r "4.prems"(2) s1] 1 "4.prems"(6,7) f by auto
  have "\<exists>T. snd st' = snd st1 @ T" using visit_deps_frame[OF r] by auto
  with 1 2 show ?case by auto
qed

lemma visit_total:
  "card (fst ` set sds - fst st) < k \<Longrightarrow> nm \<in> fst ` set sds \<or> nm \<in> fst st \<Longrightarrow>
     visit k sds cfgs nm st \<noteq> None"
  and visit_deps_total:
  "card (fst ` set sds - fst st) < k \<Longrightarrow> visit_deps k sds cfgs nm deps st \<noteq> None"
proof (induction k sds cfgs nm st and k sds cfgs nm deps st
    rule: visit_visit_deps.induct)
  case (1 sds cfgs nm visited sortd)
  then show ?case by simp
next
  case (2 k sds cfgs nm visited sortd)
  show ?case
  proof (cases "nm \<in> visited")
    case True
    then show ?thesis by simp
  next
    case False
    with "2.prems" have nm: "nm \<in> fst ` set sds - visited" by auto
    have "fst ` set sds - insert nm visited = (fst ` set sds - visited) - {nm}" by auto
    moreover have "finite (fst ` set sds - visited)" by simp
    ultimately have "card (fst ` set sds - insert nm visited) < card (fst ` set sds - visited)"
      using nm card_Diff1_less[of "fst ` set sds - visited" nm] by simp
    with "2.prems"(1) have "card (fst ` set sds - fst (insert nm visited, sortd)) < k" by simp
    from "2.IH"[OF False this] False show ?thesis
      by (auto split: option.splits sum.splits)
  qed
next
  case (3 k sds cfgs nm st)
  then show ?case by simp
next
  case (4 k sds cfgs nm dep deps st)
  show ?case
  proof (cases "map_of sds dep = None")
    case True
    then show ?thesis by simp
  next
    case False
    then have "dep \<in> fst ` set sds" by (simp add: map_of_eq_None_iff)
    with "4.IH"(1)[OF False "4.prems"] have v: "visit k sds cfgs dep st \<noteq> None" by simp
    show ?thesis
    proof (cases "visit k sds cfgs dep st")
      case None
      with v show ?thesis by simp
    next
      case (Some r)
      show ?thesis
      proof (cases r)
        case (Inl e)
        with Some False show ?thesis by simp
      next
        case (Inr st1)
        from visit_frame[OF Some[unfolded Inr]] have "fst st \<subseteq> fst st1" by simp
        then have "card (fst ` set sds - fst st1) \<le> card (fst ` set sds - fst st)"
          by (intro card_mono) auto
        with "4.prems" have "card (fst ` set sds - fst st1) < k" by simp
        from "4.IH"(2)[OF False Some Inr this] Some Inr False show ?thesis by simp
      qed
    qed
  qed
qed

lemma visit_total_top:
  assumes "card (fst ` set sds - fst st) + 1 < k"
  shows "visit k sds cfgs nm st \<noteq> None"
proof -
  obtain j where k: "k = Suc j" using assms by (cases k) auto
  obtain V S where st: "st = (V, S)" by (cases st)
  have "card (fst ` set sds - insert nm V) \<le> card (fst ` set sds - V)"
    by (intro card_mono) auto
  with assms have "card (fst ` set sds - fst (insert nm V, S)) < j" by (simp add: k st)
  from visit_deps_total[OF this, where cfgs=cfgs and nm=nm and deps="deps_of cfgs nm"] show ?thesis
    unfolding k st by (auto split: option.splits sum.splits)
qed

text \<open>The top-level loop, from a state where everything visited is sorted.\<close>

lemma visit_names_inv:
  assumes "visit_names k sds cfgs names st = Some (Inr st')"
    and "fst st = set (snd st)" and "distinct (snd st)"
    and "\<forall>n\<in>set (snd st). closed_under sds cfgs (fst st) n"
  shows "fst st' = set (snd st') \<and> distinct (snd st') \<and> set names \<subseteq> set (snd st')
       \<and> set (snd st) \<subseteq> set (snd st')
       \<and> (\<forall>n\<in>set (snd st'). closed_under sds cfgs (fst st') n)
       \<and> (acyclic (dep_edges cfgs) \<longrightarrow> topo cfgs (snd st) \<longrightarrow> topo cfgs (snd st'))"
  using assms
proof (induction names arbitrary: st)
  case Nil
  then show ?case by simp
next
  case (Cons nm names)
  from Cons.prems(1) obtain st1 where
    v: "visit k sds cfgs nm st = Some (Inr st1)"
    and r: "visit_names k sds cfgs names st1 = Some (Inr st')"
    by (auto split: option.splits sum.splits)
  have sub: "set (snd st) \<subseteq> fst st" using Cons.prems(2) by simp
  have f: "fst st \<subseteq> fst st1" "\<exists>T. snd st1 = snd st @ T"
    "fst st1 - set (snd st1) = fst st - set (snd st)" "nm \<in> fst st1"
    using visit_frame[OF v] by auto
  have s1: "set (snd st1) \<subseteq> fst st1" using visit_sub[OF v sub] .
  with f(3) Cons.prems(2) have eq1: "fst st1 = set (snd st1)" by auto
  have c1: "\<forall>n\<in>set (snd st1). closed_under sds cfgs (fst st1) n"
    using visit_closed[OF v Cons.prems(4)] .
  have d1: "distinct (snd st1)" using visit_distinct[OF v sub Cons.prems(3)] .
  have t1: "topo cfgs (snd st1)" if "acyclic (dep_edges cfgs)" "topo cfgs (snd st)"
    using visit_topo[OF v that(1) sub Cons.prems(3) that(2)] Cons.prems(2) by simp
  from Cons.IH[OF r eq1 d1 c1] f eq1 t1 show ?case by auto
qed

lemma visit_names_total:
  "card (fst ` set sds - fst st) + 1 < k \<Longrightarrow> visit_names k sds cfgs names st \<noteq> None"
proof (induction names arbitrary: st)
  case Nil
  then show ?case by simp
next
  case (Cons nm names)
  from visit_total_top[OF Cons.prems] obtain r where v: "visit k sds cfgs nm st = Some r"
    by blast
  show ?case
  proof (cases r)
    case (Inl e)
    with v show ?thesis by simp
  next
    case (Inr st1)
    from visit_frame[OF v[unfolded Inr]] have "fst st \<subseteq> fst st1" by simp
    then have "card (fst ` set sds - fst st1) \<le> card (fst ` set sds - fst st)"
      by (intro card_mono) auto
    with Cons.prems have "card (fst ` set sds - fst st1) + 1 < k" by simp
    from Cons.IH[OF this] v Inr show ?thesis by simp
  qed
qed

lemma visit_error:
  "visit k sds cfgs nm st = Some (Inl e) \<Longrightarrow>
     \<exists>dep n. map_of sds dep = None \<and>
       e = dependency_not_found dep n"
  and visit_deps_error:
  "visit_deps k sds cfgs nm deps st = Some (Inl e) \<Longrightarrow>
     \<exists>dep n. map_of sds dep = None \<and>
       e = dependency_not_found dep n"
proof (induction k sds cfgs nm st and k sds cfgs nm deps st
    rule: visit_visit_deps.induct)
  case (1 sds cfgs nm visited sortd)
  then show ?case by simp
next
  case (2 k sds cfgs nm visited sortd)
  then show ?case by (auto split: if_splits option.splits sum.splits prod.splits)
next
  case (3 k sds cfgs nm st)
  then show ?case by simp
next
  case (4 k sds cfgs nm dep deps st)
  show ?case
  proof (cases "map_of sds dep = None")
    case True
    with "4.prems" show ?thesis by auto
  next
    case False
    with 4 show ?thesis by (auto split: option.splits sum.splits)
  qed
qed

lemma visit_names_error:
  "visit_names k sds cfgs names st = Some (Inl e) \<Longrightarrow>
     \<exists>dep n. map_of sds dep = None \<and>
       e = dependency_not_found dep n"
proof (induction names arbitrary: st)
  case Nil
  then show ?case by simp
next
  case (Cons nm names)
  show ?case
  proof (cases "visit k sds cfgs nm st")
    case None
    with Cons.prems show ?thesis by simp
  next
    case (Some r)
    show ?thesis
    proof (cases r)
      case (Inl e')
      with Some Cons.prems have "e' = e" by simp
      with Some Inl visit_error[of k sds cfgs nm st e] show ?thesis by simp
    next
      case (Inr st1)
      with Some Cons.prems have "visit_names k sds cfgs names st1 = Some (Inl e)" by simp
      from Cons.IH[OF this] show ?thesis .
    qed
  qed
qed

lemma sortByDependencies_total:
  assumes "length (seeders ds) + 1 < k"
  shows "sortByDependencies k ds names \<noteq> None"
proof -
  have "card (fst ` set (seeders ds)) \<le> length (seeders ds)"
    by (metis card_image_le card_length le_trans List.finite_set)
  then have "card (fst ` set (seeders ds) - fst ({}::string set, []::string list)) + 1 < k"
    using assms by simp
  from visit_names_total[OF this] show ?thesis
    by (auto simp: sortByDependencies_def split: option.splits sum.splits)
qed

lemma sortByDependencies_props:
  assumes "sortByDependencies k ds names = Some (Inr srt)"
  shows "distinct srt \<and> set names \<subseteq> set srt
       \<and> (\<forall>n\<in>set srt. closed_under (seeders ds) (config ds) (set srt) n)
       \<and> (acyclic (dep_edges (config ds)) \<longrightarrow> topo (config ds) srt)"
proof -
  from assms obtain V where
    v: "visit_names k (seeders ds) (config ds) names ({}, []) = Some (Inr (V, srt))"
    by (auto simp: sortByDependencies_def split: option.splits sum.splits)
  have "topo (config ds) []" by (simp add: topo_def)
  with visit_names_inv[OF v] show ?thesis by auto
qed

lemma closed_reach:
  assumes "(n, m) \<in> (dep_edges cfgs)\<^sup>*" "n \<in> S" "\<forall>x\<in>S. closed_under sds cfgs S x"
  shows "m \<in> S"
  using assms
proof (induction rule: rtrancl_induct)
  case base
  then show ?case by simp
next
  case (step y z)
  then show ?case by (auto simp: dep_edges_def closed_under_def)
qed

lemma seeded_append [simp]: "seeded (xs @ ys) = seeded xs @ seeded ys"
  by (simp add: seeded_def)

lemma seeded_simps [simp]:
  "seeded [] = []" "seeded (Seeded n # cs) = n # seeded cs" "seeded (Truncated n # cs) = seeded cs"
  by (simp_all add: seeded_def)

lemma runSeeder_effect:
  assumes "runSeeder NODE_ENV ds nm = (r, ds')"
  shows "config ds' = config ds \<and> seeders ds' = seeders ds
       \<and> seeded (calls ds') = seeded (calls ds) @
            (if map_of (seeders ds) nm \<noteq> None \<and> \<not> skipped NODE_ENV (config ds) nm then [nm] else [])
       \<and> (map_of (seeders ds) nm = None \<longrightarrow> r \<noteq> Inr ())
       \<and> (skipped NODE_ENV (config ds) nm \<and> map_of (seeders ds) nm \<noteq> None \<longrightarrow> r = Inr ())"
  using assms
  by (auto simp: runSeeder_def Let_def split: option.splits if_splits sum.splits)

lemma seed_loop_effect:
  "seed_loop NODE_ENV ds srt = (r, ds') \<Longrightarrow>
     \<exists>j\<le>length srt.
        seeded (calls ds') =
          seeded (calls ds) @ filter (\<lambda>n. \<not> skipped NODE_ENV (config ds) n) (take j srt)
      \<and> (r = Inr () \<longrightarrow> j = length srt)"
proof (induction srt arbitrary: ds)
  case Nil
  then show ?case by simp
next
  case (Cons nm srt)
  obtain r1 ds1 where rs: "runSeeder NODE_ENV ds nm = (r1, ds1)" by (cases "runSeeder NODE_ENV ds nm")
  note eff = runSeeder_effect[OF rs]
  show ?case
  proof (cases r1)
    case (Inl e)
    with rs Cons.prems have r: "r = Inl e" "ds' = ds1" by auto
    show ?thesis
    proof (cases "map_of (seeders ds) nm \<noteq> None \<and> \<not> skipped NODE_ENV (config ds) nm")
      case True
      with eff r show ?thesis by (intro exI[of _ 1]) auto
    next
      case False
      with eff r show ?thesis by (intro exI[of _ 0]) auto
    qed
  next
    case (Inr u)
    with rs Cons.prems have "seed_loop NODE_ENV ds1 srt = (r, ds')" by simp
    from Cons.IH[OF this] obtain j where j: "j \<le> length srt"
      "seeded (calls ds') =
          seeded (calls ds1) @ filter (\<lambda>n. \<not> skipped NODE_ENV (config ds1) n) (take j srt)"
      "r = Inr () \<longrightarrow> j = length srt" by blast
    from eff Inr have reg: "map_of (seeders ds) nm \<noteq> None" by auto
    with eff j show ?thesis by (intro exI[of _ "Suc j"]) auto
  qed
qed

text \<open>
  C5, amended: when a name \<open>m\<close> reachable from a requested name through declared
  dependencies declares a dependency \<open>d\<close> that is not a registered seeder, \<^verbatim>\<open>seed\<close>
  rejects with \<^verbatim>\<open>Dependency not found\<close> out of \<^verbatim>\<open>sortByDependencies\<close>, and the seeder
  object is as before: no truncation and no seed function has been started, the store
  is untouched.  (A requested name that is itself unregistered is not covered: see
  the counterexample below.)
\<close>

theorem seed_unregistered_dependency_rejects_first:
  assumes "n \<in> set names" and "(n, m) \<in> (dep_edges (config ds))\<^sup>*"
    and "d \<in> set (deps_of (config ds) m)" and "map_of (seeders ds) d = None"
    and "length (seeders ds) + 1 < k"
  shows "\<exists>dep nm. map_of (seeders ds) dep = None \<and>
           seed k NODE_ENV ds names =
             Some (Inl (dependency_not_found dep nm), ds)"
proof -
  from sortByDependencies_total[OF assms(5)] obtain r where
    r: "sortByDependencies k ds names = Some r" by blast
  show ?thesis
  proof (cases r)
    case (Inl e)
    with r have "visit_names k (seeders ds) (config ds) names ({}, []) = Some (Inl e)"
      by (auto simp: sortByDependencies_def split: option.splits sum.splits)
    from visit_names_error[OF this] r Inl show ?thesis
      by (auto simp: seed_def)
  next
    case (Inr srt)
    from sortByDependencies_props[OF r[unfolded Inr]]
    have cl: "\<forall>x\<in>set srt. closed_under (seeders ds) (config ds) (set srt) x"
      and "set names \<subseteq> set srt" by auto
    with assms(1) have "n \<in> set srt" by auto
    from closed_reach[OF assms(2) this cl] have "m \<in> set srt" .
    with cl assms(3) have "map_of (seeders ds) d \<noteq> None"
      unfolding closed_under_def by blast
    with assms(4) show ?thesis by simp
  qed
qed

text \<open>
  C6, amended: on an acyclic dependency graph \<^verbatim>\<open>seed(names)\<close> returns, and the seed
  functions it started form a list \<open>ran\<close> without repetition in which every name comes
  after each of its declared dependencies that the environment gate lets run; when
  \<^verbatim>\<open>seed\<close> resolves, every requested name that the gate lets run has run.
\<close>

theorem seed_dependency_order:
  assumes "acyclic (dep_edges (config ds))" and "length (seeders ds) + 1 < k"
  shows "\<exists>r ds' ran. seed k NODE_ENV ds names = Some (r, ds')
       \<and> seeded (calls ds') = seeded (calls ds) @ ran \<and> distinct ran
       \<and> (\<forall>n\<in>set ran. \<forall>d\<in>set (deps_of (config ds) n).
             \<not> skipped NODE_ENV (config ds) d \<longrightarrow> d \<in> set ran \<and> precedes ran d n)
       \<and> (r = Inr () \<longrightarrow> (\<forall>n\<in>set names. \<not> skipped NODE_ENV (config ds) n \<longrightarrow> n \<in> set ran))"
proof -
  from sortByDependencies_total[OF assms(2)] obtain r0 where
    r0: "sortByDependencies k ds names = Some r0" by blast
  show ?thesis
  proof (cases r0)
    case (Inl e)
    with r0 have "seed k NODE_ENV ds names = Some (Inl e, ds)" by (simp add: seed_def)
    then show ?thesis by (intro exI[of _ "Inl e"] exI[of _ ds] exI[of _ "[]"]) simp
  next
    case (Inr srt)
    obtain r ds' where sl: "seed_loop NODE_ENV ds srt = (r, ds')"
      by (cases "seed_loop NODE_ENV ds srt")
    with r0 Inr have s: "seed k NODE_ENV ds names = Some (r, ds')" by (simp add: seed_def)
    from sortByDependencies_props[OF r0[unfolded Inr]] assms(1)
    have dist: "distinct srt" and names: "set names \<subseteq> set srt" and tp: "topo (config ds) srt"
      by auto
    from seed_loop_effect[OF sl] obtain j where j: "j \<le> length srt"
      and log: "seeded (calls ds') =
          seeded (calls ds) @ filter (\<lambda>n. \<not> skipped NODE_ENV (config ds) n) (take j srt)"
      and full: "r = Inr () \<longrightarrow> j = length srt" by blast
    let ?P = "\<lambda>n. \<not> skipped NODE_ENV (config ds) n"
    let ?ran = "filter ?P (take j srt)"
    have "distinct ?ran" using dist by simp
    moreover have "d \<in> set ?ran \<and> precedes ?ran d n"
      if "n \<in> set ?ran" "d \<in> set (deps_of (config ds) n)" "?P d" for n d
    proof -
      from that(1) have nt: "n \<in> set (take j srt)" by simp
      then have "n \<in> set srt" by (rule in_set_takeD)
      with tp that(2) have p: "precedes srt d n" by (auto simp: topo_def)
      from precedes_in_take[OF p nt] that(3) precedes_filter_take[OF p, of ?P j]
      show ?thesis by simp
    qed
    moreover have "n \<in> set ?ran" if "r = Inr ()" "n \<in> set names" "?P n" for n
      using that full names by auto
    ultimately show ?thesis
      using s log by (intro exI[of _ r] exI[of _ ds'] exI[of _ ?ran]) blast
  qed
qed

lemmas seeder_demo_defs = new_DatabaseSeeder_def no_config_def insert_row_def register_seeder_def
  roles_users_def users_only_def cyclic_seeders_def

text \<open>
  C5 as stated fails for a requested name that is not registered: \<^verbatim>\<open>visit\<close> has no check
  for it, \<^verbatim>\<open>runSeeder\<close> throws only at its turn, and the seeders sorted before it have
  already run.
\<close>

theorem seed_unknown_requested_name_counterexample:
  "map_option fst (seed 3 None roles_users [''roles'', ''bogus'']) =
     Some (Inl (Error ''Seeder not found: bogus''))
   \<and> map_option (calls \<circ> snd) (seed 3 None roles_users [''roles'', ''bogus'']) =
       Some [Seeded ''roles'']
   \<and> map_option (prisma \<circ> snd) (seed 3 None roles_users [''roles'', ''bogus'']) =
       Some [''role'']"
  by (simp add: seed_def sortByDependencies_def seeder_demo_defs eval_nat_numeral deps_of_def
      runSeeder_def skipped_def Let_def)

text \<open>
  C6 as stated fails on a cycle: with \<open>a\<close> and \<open>b\<close> depending on each other,
  \<^verbatim>\<open>seed(['a'])\<close> runs \<open>b\<close> before its dependency \<open>a\<close>.
\<close>

theorem seed_cycle_counterexample:
  "map_option fst (seed 4 None cyclic_seeders [''a'']) = Some (Inr ())
   \<and> map_option (seeded \<circ> calls \<circ> snd) (seed 4 None cyclic_seeders [''a'']) =
       Some [''b'', ''a'']
   \<and> deps_of (config cyclic_seeders) ''b'' = [''a'']
   \<and> \<not> precedes [''b'', ''a''] ''a'' ''b''"
  by (simp add: seed_def sortByDependencies_def seeder_demo_defs eval_nat_numeral deps_of_def
      runSeeder_def skipped_def Let_def)

theorem seed_unregistered_dependency_rejects_first_witness:
  "\<exists>dep nm. map_of (seeders users_only) dep = None \<and>
     seed 3 None users_only [''users''] = Some (Inl (dependency_not_found dep nm), users_only)"
proof -
  have 1: "''users'' \<in> set [''users'']" by simp
  have 2: "(''users'', ''users'') \<in> (dep_edges (config users_only))\<^sup>*" by simp
  have 3: "''roles'' \<in> set (deps_of (config users_only) ''users'')"
    by (simp add: deps_of_def seeder_demo_defs)
  have 4: "map_of (seeders users_only) ''roles'' = None" by (simp add: seeder_demo_defs)
  have 5: "length (seeders users_only) + 1 < 3" by (simp add: seeder_demo_defs)
  from seed_unregistered_dependency_rejects_first[OF 1 2 3 4 5] show ?thesis .
qed

theorem seed_dependency_order_witness:
  "\<exists>r ds'. seed 4 (Some ''test'') roles_users [''users''] = Some (r, ds')
       \<and> seeded (calls ds') = [''roles'', ''users'']
       \<and> precedes (seeded (calls ds')) ''roles'' ''users''"
proof -
  have cfg: "deps_of (config roles_users) n = (if n = ''users'' then [''roles''] else [])" for n
    by (simp add: deps_of_def seeder_demo_defs)
  have ac: "acyclic (dep_edges (config roles_users))"
    by (rule acyclicI_order[where f = "\<lambda>n. if n = ''users'' then 1 else (0::nat)"])
      (auto simp: dep_edges_def cfg split: if_splits)
  have fuel: "length (seeders roles_users) + 1 < 4" by (simp add: seeder_demo_defs)
  from seed_dependency_order[OF ac fuel, of "Some ''test''" "[''users'']"]
  obtain r ds' ran where s: "seed 4 (Some ''test'') roles_users [''users''] = Some (r, ds')"
    and "seeded (calls ds') = seeded (calls roles_users) @ ran" by blast
  moreover have "map_option (\<lambda>(r, ds'). seeded (calls ds'))
      (seed 4 (Some ''test'') roles_users [''users'']) = Some [''roles'', ''users'']"
    by (simp add: seed_def sortByDependencies_def seeder_demo_defs eval_nat_numeral deps_of_def
      runSeeder_def skipped_def Let_def node_env_def)
  ultimately show ?thesis by auto
qed

section \<open>Properties of FixtureManager\<close>

lemma log_event_simps [simp]:
  "fixtures (log_event e m) = fixtures m"
  "loadedFixtures (log_event e m) = loadedFixtures m"
  "setupPromises (log_event e m) = setupPromises m"
  "events (log_event e m) = events m @ [e]"
  by (simp_all add: log_event_def)

lemma unload_self_effect:
  assumes "unload_self fixtureName fixture m = (r, m')"
  shows "fixtures m' = fixtures m" "setupPromises m' = setupPromises m"
    "r = Inr () \<longrightarrow> loadedFixtures m' = removeAll fixtureName (loadedFixtures m)"
    "r \<noteq> Inr () \<longrightarrow> loadedFixtures m' = loadedFixtures m"
    "r = Inr () \<longrightarrow> events m' = events m @
        (case fx_teardown fixture of None \<Rightarrow> [] | Some cb \<Rightarrow> [TeardownStarted fixtureName]) @
        [UnloadedOk fixtureName]"
    "\<exists>es. events m' = events m @ es \<and> (r = Inr () \<longrightarrow> UnloadedOk fixtureName \<in> set es)"
  using assms
  by (auto simp: unload_self_def Let_def split: option.splits)

text \<open>What one call of \<open>unload\<close> may change, whatever its result.\<close>

lemma unload_frame:
  "unload k fixtureName m = Some (r, m') \<Longrightarrow>
     fixtures m' = fixtures m \<and> setupPromises m' = setupPromises m
     \<and> set (loadedFixtures m') \<subseteq> set (loadedFixtures m)
     \<and> (\<exists>es. events m' = events m @ es \<and>
           (\<forall>x\<in>set (loadedFixtures m) - set (loadedFixtures m'). UnloadedOk x \<in> set es))"
  and unload_dependents_frame:
  "unload_dependents k fixtureName fxs m = Some (r, m') \<Longrightarrow>
     fixtures m' = fixtures m \<and> setupPromises m' = setupPromises m
     \<and> set (loadedFixtures m') \<subseteq> set (loadedFixtures m)
     \<and> (\<exists>es. events m' = events m @ es \<and>
           (\<forall>x\<in>set (loadedFixtures m) - set (loadedFixtures m'). UnloadedOk x \<in> set es))"
proof (induction k fixtureName m and k fixtureName fxs m arbitrary: r m' and r m'
    rule: unload_unload_dependents.induct)
  case (1 fixtureName m)
  then show ?case by simp
next
  case (2 k fixtureName m)
  show ?case
  proof (cases "map_of (fixtures m) fixtureName")
    case None
    with "2.prems" show ?thesis by auto
  next
    case (Some fixture)
    show ?thesis
    proof (cases "fixtureName \<in> set (loadedFixtures m)")
      case False
      with Some "2.prems" show ?thesis by auto
    next
      case True
      with Some "2.prems" obtain r1 m1 where
        d: "unload_dependents k fixtureName (fixtures m) (log_event (Unloading fixtureName) m) = Some (r1, m1)"
        by (auto split: option.splits)
      from "2.IH"[OF Some _ d] True obtain es where
        f: "fixtures m1 = fixtures m" "setupPromises m1 = setupPromises m"
          "set (loadedFixtures m1) \<subseteq> set (loadedFixtures m)"
          "events m1 = events m @ Unloading fixtureName # es"
          "\<forall>x\<in>set (loadedFixtures m) - set (loadedFixtures m1). UnloadedOk x \<in> set es"
        by auto
      show ?thesis
      proof (cases r1)
        case (Inl e)
        with "2.prems" Some True d have "m' = log_event (UnloadFailed fixtureName) m1" by simp
        with f show ?thesis by auto
      next
        case (Inr u)
        with "2.prems" Some True d have us: "unload_self fixtureName fixture m1 = (r, m')" by simp
        note e = unload_self_effect[OF us]
        from e(6) obtain es2 where es2: "events m' = events m1 @ es2"
          "r = Inr () \<longrightarrow> UnloadedOk fixtureName \<in> set es2" by blast
        have l: "set (loadedFixtures m') \<subseteq> set (loadedFixtures m1)"
          using e(3,4) by (cases "r = Inr ()") auto
        have "events m' = events m @ (Unloading fixtureName # es @ es2)"
          using f(4) es2(1) by simp
        moreover have "\<forall>x\<in>set (loadedFixtures m) - set (loadedFixtures m').
            UnloadedOk x \<in> set (Unloading fixtureName # es @ es2)"
        proof
          fix x assume x: "x \<in> set (loadedFixtures m) - set (loadedFixtures m')"
          show "UnloadedOk x \<in> set (Unloading fixtureName # es @ es2)"
          proof (cases "x \<in> set (loadedFixtures m1)")
            case False
            with x f(5) show ?thesis by auto
          next
            case True
            with x e(3,4) have "r = Inr ()" "x = fixtureName" by (cases "r = Inr ()"; auto)+
            with es2(2) show ?thesis by simp
          qed
        qed
        ultimately have "\<exists>es'. events m' = events m @ es' \<and>
            (\<forall>x\<in>set (loadedFixtures m) - set (loadedFixtures m'). UnloadedOk x \<in> set es')"
          by (intro exI[of _ "Unloading fixtureName # es @ es2"] conjI)
        moreover have "set (loadedFixtures m') \<subseteq> set (loadedFixtures m)"
          using l f(3) by (rule subset_trans)
        ultimately show ?thesis using f(1,2) e(1,2) by simp
      qed
    qed
  qed
next
  case (3 k fixtureName m)
  then show ?case by simp
next
  case (4 k fixtureName n fx rest m)
  show ?case
  proof (cases "depends_on fx fixtureName")
    case False
    with "4.prems" have "unload_dependents k fixtureName rest m = Some (r, m')" by simp
    from "4.IH"(3)[OF False this] show ?thesis .
  next
    case True
    with "4.prems" obtain r1 m1 where u: "unload k n m = Some (r1, m1)"
      by (auto split: option.splits)
    note f1 = "4.IH"(1)[OF True u]
    show ?thesis
    proof (cases r1)
      case (Inl e)
      with True u "4.prems" have "r = Inl e" "m' = m1" by auto
      with f1 show ?thesis by simp
    next
      case (Inr a)
      with True u "4.prems" have r: "unload_dependents k fixtureName rest m1 = Some (r, m')" by simp
      note f2 = "4.IH"(2)[OF True u refl Inr r]
      from f1 obtain es1 where e1: "events m1 = events m @ es1"
        "\<forall>x\<in>set (loadedFixtures m) - set (loadedFixtures m1). UnloadedOk x \<in> set es1" by blast
      from f2 obtain es2 where e2: "events m' = events m1 @ es2"
        "\<forall>x\<in>set (loadedFixtures m1) - set (loadedFixtures m'). UnloadedOk x \<in> set es2" by blast
      have "events m' = events m @ (es1 @ es2)" using e1 e2 by simp
      moreover have "\<forall>x\<in>set (loadedFixtures m) - set (loadedFixtures m'). UnloadedOk x \<in> set (es1 @ es2)"
        using e1 e2 by auto
      ultimately have "\<exists>es'. events m' = events m @ es' \<and>
          (\<forall>x\<in>set (loadedFixtures m) - set (loadedFixtures m'). UnloadedOk x \<in> set es')"
        by (intro exI[of _ "es1 @ es2"] conjI)
      moreover have "set (loadedFixtures m') \<subseteq> set (loadedFixtures m)"
        using f1 f2 by auto
      ultimately show ?thesis using f1 f2 by simp
    qed
  qed
qed

lemma unload_removes_self:
  assumes "unload k fixtureName m = Some (Inr (), m')"
  shows "fixtureName \<notin> set (loadedFixtures m')"
proof (cases k)
  case 0
  with assms show ?thesis by simp
next
  case (Suc j)
  show ?thesis
  proof (cases "map_of (fixtures m) fixtureName")
    case None
    with assms Suc show ?thesis by simp
  next
    case (Some fixture)
    show ?thesis
    proof (cases "fixtureName \<in> set (loadedFixtures m)")
      case False
      with assms Suc Some show ?thesis by simp
    next
      case True
      with assms Suc Some obtain m1 where
        us: "unload_self fixtureName fixture m1 = (Inr (), m')"
        by (auto split: option.splits sum.splits prod.splits)
      from unload_self_effect(3)[OF us] show ?thesis by simp
    qed
  qed
qed

lemma unload_dependents_post:
  "unload_dependents k fixtureName fxs m = Some (Inr (), m') \<Longrightarrow>
     \<forall>(n, fix)\<in>set fxs. depends_on fix fixtureName \<longrightarrow> n \<notin> set (loadedFixtures m')"
proof (induction fxs arbitrary: m)
  case Nil
  then show ?case by simp
next
  case (Cons a fxs)
  obtain n fx where a: "a = (n, fx)" by (cases a)
  show ?case
  proof (cases "depends_on fx fixtureName")
    case False
    with Cons.prems a have "unload_dependents k fixtureName fxs m = Some (Inr (), m')" by simp
    from Cons.IH[OF this] False a show ?thesis by simp
  next
    case True
    with Cons.prems a obtain m1 where u: "unload k n m = Some (Inr (), m1)"
      and r: "unload_dependents k fixtureName fxs m1 = Some (Inr (), m')"
      by (auto split: option.splits sum.splits prod.splits)
    from unload_removes_self[OF u] unload_dependents_frame[OF r]
    have "n \<notin> set (loadedFixtures m')" by auto
    with Cons.IH[OF r] a show ?thesis by auto
  qed
qed

lemma keeps_deps_refl: "keeps_deps m m"
  by (auto simp: keeps_deps_def)

lemma keeps_deps_log [simp]: "keeps_deps (log_event e m) m' = keeps_deps m m'"
  by (simp add: keeps_deps_def)

lemma keeps_deps_trans:
  assumes "keeps_deps m m1" "keeps_deps m1 m'" "fixtures m1 = fixtures m"
    "set (loadedFixtures m') \<subseteq> set (loadedFixtures m1)"
  shows "keeps_deps m m'"
  using assms unfolding keeps_deps_def by fastforce

lemma unload_keeps_deps:
  "unload k fixtureName m = Some (Inr (), m') \<Longrightarrow> keeps_deps m m'"
  and unload_dependents_keeps_deps:
  "unload_dependents k fixtureName fxs m = Some (Inr (), m') \<Longrightarrow> keeps_deps m m'"
proof (induction k fixtureName m and k fixtureName fxs m arbitrary: m' and m'
    rule: unload_unload_dependents.induct)
  case (1 fixtureName m)
  then show ?case by simp
next
  case (2 k fixtureName m)
  show ?case
  proof (cases "map_of (fixtures m) fixtureName")
    case None
    with "2.prems" show ?thesis by auto
  next
    case (Some fixture)
    show ?thesis
    proof (cases "fixtureName \<in> set (loadedFixtures m)")
      case False
      with Some "2.prems" show ?thesis by (auto simp: keeps_deps_refl)
    next
      case True
      with Some "2.prems" obtain m1 where
        d: "unload_dependents k fixtureName (fixtures m) (log_event (Unloading fixtureName) m) = Some (Inr (), m1)"
        by (auto split: option.splits sum.splits prod.splits)
      from "2.IH"[OF Some _ d] True have k1: "keeps_deps m m1" by simp
      from unload_dependents_frame[OF d] have f: "fixtures m1 = fixtures m" by simp
      from unload_dependents_post[OF d]
      have post: "\<forall>(n, fix)\<in>set (fixtures m). depends_on fix fixtureName \<longrightarrow> n \<notin> set (loadedFixtures m1)"
        by simp
      from "2.prems" Some True d have us: "unload_self fixtureName fixture m1 = (Inr (), m')"
        by simp
      from unload_self_effect(3)[OF us]
      have l: "loadedFixtures m' = removeAll fixtureName (loadedFixtures m1)" by simp
      show ?thesis
        unfolding keeps_deps_def l using k1 post unfolding keeps_deps_def by fastforce
    qed
  qed
next
  case (3 k fixtureName m)
  then show ?case by (simp add: keeps_deps_refl)
next
  case (4 k fixtureName n fx rest m)
  show ?case
  proof (cases "depends_on fx fixtureName")
    case False
    with "4.prems" have "unload_dependents k fixtureName rest m = Some (Inr (), m')" by simp
    from "4.IH"(3)[OF False this] show ?thesis .
  next
    case True
    with "4.prems" obtain m1 where u: "unload k n m = Some (Inr (), m1)"
      and r: "unload_dependents k fixtureName rest m1 = Some (Inr (), m')"
      by (auto split: option.splits sum.splits prod.splits)
    from "4.IH"(1)[OF True u] "4.IH"(2)[OF True u refl _ r] unload_frame[OF u]
      unload_dependents_frame[OF r]
    show ?thesis by (auto intro: keeps_deps_trans)
  qed
qed

lemma unload_loaded_unfold:
  assumes "unload k fixtureName m = Some (Inr (), m')" "fixtureName \<in> set (loadedFixtures m)"
  shows "\<exists>j fixture m1. k = Suc j \<and> map_of (fixtures m) fixtureName = Some fixture
     \<and> unload_dependents j fixtureName (fixtures m) (log_event (Unloading fixtureName) m) = Some (Inr (), m1)
     \<and> unload_self fixtureName fixture m1 = (Inr (), m')"
proof (cases k)
  case 0
  with assms show ?thesis by simp
next
  case (Suc j)
  show ?thesis
  proof (cases "map_of (fixtures m) fixtureName")
    case None
    with assms Suc show ?thesis by simp
  next
    case (Some fixture)
    with assms Suc show ?thesis
      by (auto split: option.splits sum.splits prod.splits)
  qed
qed

lemma unload_not_loaded:
  assumes "unload k fixtureName m = Some (Inr (), m')" "fixtureName \<notin> set (loadedFixtures m)"
  shows "m' = m"
proof (cases k)
  case 0
  with assms show ?thesis by simp
next
  case (Suc j)
  with assms show ?thesis by (cases "map_of (fixtures m) fixtureName") auto
qed

text \<open>
  C7, amended: when \<^verbatim>\<open>unload(name)\<close> returns successfully from a state in which \<open>name\<close>
  is loaded, or in which no loaded fixture has an unloaded dependency, then \<open>name\<close> is
  not loaded, no loaded fixture has \<open>name\<close> in its dependency list, and the invariant
  that no loaded fixture has an unloaded dependency is preserved.  When \<open>name\<close> was
  loaded, every other fixture that this call removed was removed before the teardown
  of \<open>name\<close> ran, and the removal of \<open>name\<close> is the last step.
\<close>

theorem unload_cascades_to_dependents:
  assumes "unload k fixtureName m = Some (Inr (), m')"
    and "fixtureName \<in> set (loadedFixtures m) \<or> deps_loaded m"
  shows "fixtureName \<notin> set (loadedFixtures m')
     \<and> (\<forall>(n, fx)\<in>set (fixtures m'). n \<in> set (loadedFixtures m') \<longrightarrow> \<not> depends_on fx fixtureName)
     \<and> (deps_loaded m \<longrightarrow> deps_loaded m')
     \<and> (fixtureName \<in> set (loadedFixtures m) \<longrightarrow>
          (\<exists>es fixture. map_of (fixtures m) fixtureName = Some fixture
             \<and> events m' = events m @ Unloading fixtureName # es @
                 (case fx_teardown fixture of None \<Rightarrow> [] | Some cb \<Rightarrow> [TeardownStarted fixtureName]) @
                 [UnloadedOk fixtureName]
             \<and> (\<forall>x\<in>set (loadedFixtures m) - set (loadedFixtures m') - {fixtureName}.
                   UnloadedOk x \<in> set es)))"
proof -
  note fr = unload_frame[OF assms(1)]
  have 1: "fixtureName \<notin> set (loadedFixtures m')" by (rule unload_removes_self[OF assms(1)])
  have 2: "\<forall>(n, fx)\<in>set (fixtures m'). n \<in> set (loadedFixtures m') \<longrightarrow> \<not> depends_on fx fixtureName"
  proof (cases "fixtureName \<in> set (loadedFixtures m)")
    case True
    from unload_loaded_unfold[OF assms(1) True] obtain j fixture m1 where
      d: "unload_dependents j fixtureName (fixtures m) (log_event (Unloading fixtureName) m) = Some (Inr (), m1)"
      and us: "unload_self fixtureName fixture m1 = (Inr (), m')" by blast
    from unload_dependents_post[OF d]
    have "\<forall>(n, fx)\<in>set (fixtures m). depends_on fx fixtureName \<longrightarrow> n \<notin> set (loadedFixtures m1)" .
    moreover from unload_self_effect(3)[OF us]
    have "set (loadedFixtures m') \<subseteq> set (loadedFixtures m1)" by auto
    ultimately show ?thesis using fr by fastforce
  next
    case False
    with assms(2) have dl: "deps_loaded m" by simp
    from unload_not_loaded[OF assms(1) False] have "m' = m" .
    with dl False show ?thesis unfolding deps_loaded_def by fastforce
  qed
  have 3: "deps_loaded m'" if dl: "deps_loaded m"
    unfolding deps_loaded_def
  proof (intro ballI, clarify)
    fix n fx d
    assume nf: "(n, fx) \<in> set (fixtures m')" and n: "n \<in> set (loadedFixtures m')"
      and d: "depends_on fx d"
    from nf fr have nf': "(n, fx) \<in> set (fixtures m)" by simp
    from n fr have "n \<in> set (loadedFixtures m)" by auto
    with dl nf' d have "d \<in> set (loadedFixtures m)" unfolding deps_loaded_def by fastforce
    with unload_keeps_deps[OF assms(1)] nf' n d show "d \<in> set (loadedFixtures m')"
      unfolding keeps_deps_def by fastforce
  qed
  have 4: "\<exists>es fixture. map_of (fixtures m) fixtureName = Some fixture
             \<and> events m' = events m @ Unloading fixtureName # es @
                 (case fx_teardown fixture of None \<Rightarrow> [] | Some cb \<Rightarrow> [TeardownStarted fixtureName]) @
                 [UnloadedOk fixtureName]
             \<and> (\<forall>x\<in>set (loadedFixtures m) - set (loadedFixtures m') - {fixtureName}.
                   UnloadedOk x \<in> set es)"
    if ld: "fixtureName \<in> set (loadedFixtures m)"
  proof -
    from unload_loaded_unfold[OF assms(1) ld] obtain j fixture m1 where
      fx: "map_of (fixtures m) fixtureName = Some fixture"
      and d: "unload_dependents j fixtureName (fixtures m) (log_event (Unloading fixtureName) m) = Some (Inr (), m1)"
      and us: "unload_self fixtureName fixture m1 = (Inr (), m')" by blast
    from unload_dependents_frame[OF d] obtain es where
      es: "events m1 = events m @ Unloading fixtureName # es"
      "\<forall>x\<in>set (loadedFixtures m) - set (loadedFixtures m1). UnloadedOk x \<in> set (Unloading fixtureName # es)"
      by auto
    from unload_self_effect(3,5)[OF us]
    have l: "loadedFixtures m' = removeAll fixtureName (loadedFixtures m1)"
      and e: "events m' = events m1 @
        (case fx_teardown fixture of None \<Rightarrow> [] | Some cb \<Rightarrow> [TeardownStarted fixtureName]) @
        [UnloadedOk fixtureName]" by simp_all
    have "\<forall>x\<in>set (loadedFixtures m) - set (loadedFixtures m') - {fixtureName}. UnloadedOk x \<in> set es"
      using es(2) l by auto
    with fx es(1) e show ?thesis by auto
  qed
  from 1 2 3 4 show ?thesis by blast
qed

lemma log_event_runtime_simps [simp]:
  "heap (log_event e w) = heap w"
  "reactions (log_event e w) = reactions w"
  "microtasks (log_event e w) = microtasks w"
  "pending_io (log_event e w) = pending_io w"
  "counters (log_event e w) = counters w"
  "fixtures (log_event e w) = fixtures w"
  "loadedFixtures (log_event e w) = loadedFixtures w"
  "setupPromises (log_event e w) = setupPromises w"
  "events (log_event e w) = events w @ [e]"
  by (simp_all add: log_event_def)

lemma promise_at_log [simp]: "promise_at (log_event e w) p = promise_at w p"
  by (simp add: promise_at_def)

lemma settle_simps [simp]:
  "fixtures (settle p r w) = fixtures w"
  "loadedFixtures (settle p r w) = loadedFixtures w"
  "setupPromises (settle p r w) = setupPromises w"
  "events (settle p r w) = events w"
  "pending_io (settle p r w) = pending_io w"
  "counters (settle p r w) = counters w"
  "length (heap (settle p r w)) = length (heap w)"
  by (simp_all add: settle_def)

lemma settle_take: "N \<le> p \<Longrightarrow> take N (heap (settle p r w)) = take N (heap w)"
  by (simp add: settle_def)

lemma subscribe_simps [simp]:
  "fixtures (subscribe p fr w) = fixtures w"
  "loadedFixtures (subscribe p fr w) = loadedFixtures w"
  "setupPromises (subscribe p fr w) = setupPromises w"
  "events (subscribe p fr w) = events w"
  "pending_io (subscribe p fr w) = pending_io w"
  "counters (subscribe p fr w) = counters w"
  "heap (subscribe p fr w) = heap w"
  by (simp_all add: subscribe_def split: promise_state.splits)

lemma promise_at_subscribe [simp]: "promise_at (subscribe p fr w) q = promise_at w q"
  by (simp add: promise_at_def)

lemma fold_subscribe_simps [simp]:
  "fixtures (fold (\<lambda>p. subscribe p fr) ps w) = fixtures w"
  "loadedFixtures (fold (\<lambda>p. subscribe p fr) ps w) = loadedFixtures w"
  "setupPromises (fold (\<lambda>p. subscribe p fr) ps w) = setupPromises w"
  "events (fold (\<lambda>p. subscribe p fr) ps w) = events w"
  "heap (fold (\<lambda>p. subscribe p fr) ps w) = heap w"
  by (induction ps arbitrary: w; simp)+

lemma grows_refl [simp]: "grows N w w"
  by (simp add: grows_def)

lemma grows_trans: "grows N w w1 \<Longrightarrow> grows N w1 w2 \<Longrightarrow> grows N w w2"
  by (auto simp: grows_def)

lemma grows_mono: "grows N w w' \<Longrightarrow> M \<le> N \<Longrightarrow> grows M w w'"
  unfolding grows_def by (metis min.absorb1 take_take)


lemma grows_log [simp]: "grows N w (log_event e w)"
  by (simp add: grows_def)

lemma grows_settle: "N \<le> p \<Longrightarrow> grows N w (settle p r w)"
  by (simp add: grows_def settle_take)

lemma grows_subscribe [simp]: "grows N w (subscribe p fr w)"
  by (simp add: grows_def)

lemma new_promise_fst [simp]: "fst (new_promise w) = length (heap w)"
  by (simp add: new_promise_def)

lemma new_promise_snd_simps [simp]:
  "fixtures (snd (new_promise w)) = fixtures w"
  "loadedFixtures (snd (new_promise w)) = loadedFixtures w"
  "setupPromises (snd (new_promise w)) = setupPromises w"
  "events (snd (new_promise w)) = events w"
  "microtasks (snd (new_promise w)) = microtasks w"
  "reactions (snd (new_promise w)) = reactions w"
  "pending_io (snd (new_promise w)) = pending_io w"
  "counters (snd (new_promise w)) = counters w"
  "heap (snd (new_promise w)) = heap w @ [Pending]"
  by (simp_all add: new_promise_def)

lemma grows_new_promise: "N \<le> length (heap w) \<Longrightarrow> grows N w (snd (new_promise w))"
  by (simp add: grows_def)

lemma promise_at_new [simp]: "promise_at (snd (new_promise w)) (length (heap w)) = Pending"
  by (simp add: promise_at_def)

lemma call_setup_fst [simp]: "fst (call_setup n cb w) = length (heap w)"
  by (cases cb) (simp_all add: new_promise_def)

lemma call_setup_snd_simps [simp]:
  "fixtures (snd (call_setup n cb w)) = fixtures w"
  "loadedFixtures (snd (call_setup n cb w)) = loadedFixtures w"
  "setupPromises (snd (call_setup n cb w)) = setupPromises w"
  "length (heap (snd (call_setup n cb w))) = Suc (length (heap w))"
  by (cases cb; simp add: new_promise_def)+

lemma call_setup_take:
  "N \<le> length (heap w) \<Longrightarrow> take N (heap (snd (call_setup n cb w))) = take N (heap w)"
  by (cases cb; simp add: new_promise_def)

lemma grows_call_setup: "N \<le> length (heap w) \<Longrightarrow> grows N w (snd (call_setup n cb w))"
  by (simp add: grows_def call_setup_take)

lemma iife_finish_simps [simp]:
  "fixtures (iife_finish n ip w) = fixtures w"
  "loadedFixtures (iife_finish n ip w) = set_add n (loadedFixtures w)"
  "setupPromises (iife_finish n ip w) = AList.delete n (setupPromises w)"
  "length (heap (iife_finish n ip w)) = length (heap w)"
  "events (iife_finish n ip w) = events w"
  by (simp_all add: iife_finish_def)

lemma iife_finish_take: "N \<le> ip \<Longrightarrow> take N (heap (iife_finish n ip w)) = take N (heap w)"
  by (simp add: iife_finish_def settle_def)

lemma set_set_add [simp]: "set (set_add x xs) = insert x (set xs)"
  by (auto simp: set_add_def)

lemma load_setup_effect:
  "fixtures (load_setup n f rp w) = fixtures w"
  "loadedFixtures (load_setup n f rp w) =
     (if fx_setup f = None then set_add n (loadedFixtures w) else loadedFixtures w)"
  "map_of (setupPromises (load_setup n f rp w)) = (map_of (setupPromises w))(n \<mapsto> length (heap w))"
  "length (heap w) < length (heap (load_setup n f rp w))"
  "N \<le> length (heap w) \<Longrightarrow> take N (heap (load_setup n f rp w)) = take N (heap w)"
proof -
  show "fixtures (load_setup n f rp w) = fixtures w"
    by (simp add: load_setup_def Let_def split_beta split: option.splits)
  show "loadedFixtures (load_setup n f rp w) =
     (if fx_setup f = None then set_add n (loadedFixtures w) else loadedFixtures w)"
    by (simp add: load_setup_def Let_def split_beta split: option.splits)
  show "map_of (setupPromises (load_setup n f rp w)) = (map_of (setupPromises w))(n \<mapsto> length (heap w))"
    by (auto simp: load_setup_def Let_def split_beta update_conv' delete_conv' split: option.splits)
  show "length (heap w) < length (heap (load_setup n f rp w))"
    by (simp add: load_setup_def Let_def split_beta split: option.splits)
  show "take N (heap (load_setup n f rp w)) = take N (heap w)" if "N \<le> length (heap w)"
    using that
    by (simp add: load_setup_def Let_def split_beta iife_finish_take call_setup_take
        split: option.splits)
qed

lemma grows_load_setup: "N \<le> length (heap w) \<Longrightarrow> grows N w (load_setup n f rp w)"
  using load_setup_effect(4)[of w n f rp] load_setup_effect(5)[of N w n f rp]
  by (simp add: grows_def load_setup_effect(1))

lemma promise_all_fst [simp]: "fst (promise_all ps w) = length (heap w)"
  by (simp add: promise_all_def Let_def split_beta)

lemma promise_all_snd_simps [simp]:
  "fixtures (snd (promise_all ps w)) = fixtures w"
  "loadedFixtures (snd (promise_all ps w)) = loadedFixtures w"
  "setupPromises (snd (promise_all ps w)) = setupPromises w"
  "events (snd (promise_all ps w)) = events w"
  "length (heap (snd (promise_all ps w))) = Suc (length (heap w))"
  by (simp_all add: promise_all_def Let_def split_beta)

lemma promise_all_take:
  "N \<le> length (heap w) \<Longrightarrow> take N (heap (snd (promise_all ps w))) = take N (heap w)"
  by (simp add: promise_all_def Let_def split_beta settle_take)

lemma grows_promise_all: "N \<le> length (heap w) \<Longrightarrow> grows N w (snd (promise_all ps w))"
  by (simp add: grows_def promise_all_take)

lemma pass_effect_same:
  "loadedFixtures w' = loadedFixtures w \<Longrightarrow> setupPromises w' = setupPromises w \<Longrightarrow> pass_effect w w'"
  by (simp add: pass_effect_def)

lemma pass_effectD:
  assumes "pass_effect w w'"
  shows "x \<in> set (loadedFixtures w) \<Longrightarrow> x \<in> set (loadedFixtures w')"
    and "map_of (setupPromises w) x \<noteq> None \<Longrightarrow> map_of (setupPromises w') x \<noteq> None"
    and "x \<in> set (loadedFixtures w') \<Longrightarrow> x \<notin> set (loadedFixtures w) \<Longrightarrow>
          map_of (setupPromises w') x \<noteq> None"
    and "map_of (setupPromises w') x \<noteq> map_of (setupPromises w) x \<Longrightarrow>
          \<exists>f. map_of (fixtures w) x = Some f \<and> fx_dependencies f = None"
    and "x \<in> set (loadedFixtures w') \<Longrightarrow> x \<notin> set (loadedFixtures w) \<Longrightarrow>
          \<exists>f. map_of (fixtures w) x = Some f \<and> fx_dependencies f = None"
  using assms unfolding pass_effect_def by simp_all

lemma pass_effect_trans:
  assumes "pass_effect w w1" "pass_effect w1 w2" "fixtures w1 = fixtures w"
  shows "pass_effect w w2"
  unfolding pass_effect_def
proof (intro conjI allI impI)
  fix x
  show "x \<in> set (loadedFixtures w2)" if "x \<in> set (loadedFixtures w)"
    using that pass_effectD(1)[OF assms(1)] pass_effectD(1)[OF assms(2)] by simp
  show "map_of (setupPromises w2) x \<noteq> None" if "map_of (setupPromises w) x \<noteq> None"
    using that pass_effectD(2)[OF assms(1)] pass_effectD(2)[OF assms(2)] by simp
  show "map_of (setupPromises w2) x \<noteq> None"
    if *: "x \<in> set (loadedFixtures w2) \<and> x \<notin> set (loadedFixtures w)"
  proof (cases "x \<in> set (loadedFixtures w1)")
    case True
    with * pass_effectD(3)[OF assms(1), of x] have "map_of (setupPromises w1) x \<noteq> None" by simp
    then show ?thesis by (rule pass_effectD(2)[OF assms(2)])
  next
    case False
    with * show ?thesis using pass_effectD(3)[OF assms(2), of x] by simp
  qed
  show "\<exists>f. map_of (fixtures w) x = Some f \<and> fx_dependencies f = None"
    if *: "map_of (setupPromises w2) x \<noteq> map_of (setupPromises w) x
            \<or> x \<in> set (loadedFixtures w2) \<and> x \<notin> set (loadedFixtures w)"
  proof -
    consider "map_of (setupPromises w2) x \<noteq> map_of (setupPromises w1) x"
      | "map_of (setupPromises w1) x \<noteq> map_of (setupPromises w) x"
      | "x \<in> set (loadedFixtures w2)" "x \<notin> set (loadedFixtures w1)"
      | "x \<in> set (loadedFixtures w1)" "x \<notin> set (loadedFixtures w)"
      using * by (cases "map_of (setupPromises w2) x = map_of (setupPromises w1) x";
          cases "x \<in> set (loadedFixtures w1)") auto
    then show ?thesis
    proof cases
      case 1
      from pass_effectD(4)[OF assms(2) 1] assms(3) show ?thesis by simp
    next
      case 2
      from pass_effectD(4)[OF assms(1) 2] show ?thesis .
    next
      case 3
      from pass_effectD(5)[OF assms(2) 3] assms(3) show ?thesis by simp
    next
      case 4
      from pass_effectD(5)[OF assms(1) 4] show ?thesis .
    qed
  qed
qed

lemma pass_effect_load_setup:
  assumes "map_of (fixtures w) n = Some f" "fx_dependencies f = None"
  shows "pass_effect w (load_setup n f' rp w)"
  using assms unfolding pass_effect_def
  by (auto simp: load_setup_effect split: if_splits)

lemma load_Suc:
  "load (Suc k) n w =
     (case map_of (fixtures w) n of
        None \<Rightarrow> Some (length (heap w),
                  settle (length (heap w)) (Rejected (fixture_not_found n)) (snd (new_promise w)))
      | Some fixture \<Rightarrow>
          (case map_of (setupPromises w) n of
             Some p \<Rightarrow> Some (length (heap w),
                 (snd (new_promise w))\<lparr>microtasks := microtasks w @ [Then_job (length (heap w)) p]\<rparr>)
           | None \<Rightarrow>
               (if n \<in> set (loadedFixtures w)
                then Some (length (heap w), settle (length (heap w)) Fulfilled (snd (new_promise w)))
                else
                  (case fx_dependencies fixture of
                     None \<Rightarrow> Some (length (heap w),
                        load_setup n fixture (length (heap w))
                          (log_event (Loading n) (snd (new_promise w))))
                   | Some deps \<Rightarrow>
                       (case load_deps k deps (log_event (Loading n) (snd (new_promise w))) of
                          None \<Rightarrow> None
                        | Some (ps, w3) \<Rightarrow>
                            Some (length (heap w),
                              subscribe (length (heap w3))
                                (Load_await_deps n fixture (length (heap w)))
                                (snd (promise_all ps w3))))))))"
  by (simp add: new_promise_def Let_def promise_all_def split_beta
      split: option.splits prod.splits)

lemma pass_effect_cong:
  assumes "loadedFixtures v = loadedFixtures w" "setupPromises v = setupPromises w"
    "fixtures v = fixtures w"
  shows "pass_effect v w' = pass_effect w w'"
  by (simp add: pass_effect_def assms)

lemma grows_cong_start:
  assumes "heap v = heap w" "fixtures v = fixtures w"
  shows "grows N v w' = grows N w w'"
  by (simp add: grows_def assms)

lemma load_pass:
  "load k n w = Some (p, w') \<Longrightarrow>
     p = length (heap w) \<and> length (heap w) < length (heap w')
     \<and> grows (length (heap w)) w w' \<and> pass_effect w w'"
  and load_deps_pass:
  "load_deps k ds w = Some (ps, w') \<Longrightarrow>
     grows (length (heap w)) w w' \<and> pass_effect w w' \<and> length ps = length ds
     \<and> sorted_wrt (<) ps \<and> (\<forall>p\<in>set ps. length (heap w) \<le> p \<and> p < length (heap w'))"
proof (induction k n w and k ds w arbitrary: p w' and ps w' rule: load_load_deps.induct)
  case (1 fixtureName w)
  then show ?case by simp
next
  case (2 k n w)
  let ?rp = "length (heap w)"
  let ?w1 = "snd (new_promise w)"
  let ?w2 = "log_event (Loading n) ?w1"
  have g1: "grows ?rp w ?w1" by (simp add: grows_new_promise)
  have g2: "grows ?rp w ?w2" by (simp add: grows_def)
  note prem = "2.prems"[unfolded load_Suc]
  show ?case
  proof (cases "map_of (fixtures w) n")
    case None
    with prem have p: "p = ?rp" and w': "w' = settle ?rp (Rejected (fixture_not_found n)) ?w1"
      by auto
    have "grows ?rp w w'" unfolding w' by (rule grows_trans[OF g1 grows_settle]) simp
    moreover have "pass_effect w w'" unfolding w' by (rule pass_effect_same) simp_all
    ultimately show ?thesis using p w' by simp
  next
    case (Some fixture)
    note fx = Some
    show ?thesis
    proof (cases "map_of (setupPromises w) n")
      case (Some q)
      with prem fx have p: "p = ?rp"
        and w': "w' = ?w1\<lparr>microtasks := microtasks w @ [Then_job ?rp q]\<rparr>" by auto
      have "grows ?rp w w'" unfolding w' by (simp add: grows_def)
      moreover have "pass_effect w w'" unfolding w' by (rule pass_effect_same) simp_all
      ultimately show ?thesis using p w' by simp
    next
      case None
      note nf = None
      show ?thesis
      proof (cases "n \<in> set (loadedFixtures w)")
        case True
        with prem fx nf have p: "p = ?rp" and w': "w' = settle ?rp Fulfilled ?w1" by auto
        have "grows ?rp w w'" unfolding w' by (rule grows_trans[OF g1 grows_settle]) simp
        moreover have "pass_effect w w'" unfolding w' by (rule pass_effect_same) simp_all
        ultimately show ?thesis using p w' by simp
      next
        case False
        note nl = False
        show ?thesis
        proof (cases "fx_dependencies fixture")
          case None
          with prem fx nf nl have p: "p = ?rp" and w': "w' = load_setup n fixture ?rp ?w2"
            by auto
          have "grows ?rp ?w2 w'" unfolding w' by (rule grows_load_setup) simp
          with g2 have "grows ?rp w w'" by (rule grows_trans)
          moreover have "pass_effect ?w2 w'" unfolding w'
            by (rule pass_effect_load_setup[where f = fixture]) (simp_all add: fx None)
          then have "pass_effect w w'" by (subst (asm) pass_effect_cong[of _ w]) simp_all
          moreover have "length (heap w) < length (heap w')"
            unfolding w' using load_setup_effect(4)[of ?w2 n fixture ?rp] by simp
          ultimately show ?thesis using p by simp
        next
          case (Some deps)
          with prem fx nf nl obtain ps w3 where
            d: "load_deps k deps ?w2 = Some (ps, w3)"
            and p: "p = ?rp"
            and w': "w' = subscribe (length (heap w3)) (Load_await_deps n fixture ?rp)
                       (snd (promise_all ps w3))"
            by (auto split: option.splits)
          have "grows (length (heap ?w2)) ?w2 w3 \<and> pass_effect ?w2 w3"
          proof -
            have np: "(fst (new_promise w), ?w1) = new_promise w" by (simp add: new_promise_def)
            from "2.IH"[OF refl np _ _ _ refl Some d] fx nf nl show ?thesis by simp
          qed
          then have g3: "grows ?rp ?w2 w3" and pe: "pass_effect ?w2 w3"
            by (auto intro: grows_mono)
          from g3 have le: "?rp < length (heap w3)" by (simp add: grows_def)
          have "grows ?rp w3 w'" unfolding w' using le by (simp add: grows_def promise_all_take)
          with g2 g3 have "grows ?rp w w'" by (blast intro: grows_trans)
          moreover have "pass_effect w3 w'" unfolding w' by (rule pass_effect_same) simp_all
          with pe have "pass_effect ?w2 w'"
            by (rule pass_effect_trans) (use g3 in \<open>simp add: grows_def\<close>)
          then have "pass_effect w w'" by (subst (asm) pass_effect_cong[of _ w]) simp_all
          moreover have "length (heap w) < length (heap w')" unfolding w' using le by simp
          ultimately show ?thesis using p by simp
        qed
      qed
    qed
  qed
next
  case (3 k w)
  then show ?case by (simp add: pass_effect_same)
next
  case (4 k dep deps w)
  from "4.prems" obtain p w1 ps' where
    l: "load k dep w = Some (p, w1)"
    and r: "load_deps k deps w1 = Some (ps', w')"
    and ps: "ps = p # ps'"
    by (auto split: option.splits)
  from "4.IH"(1)[OF l] have 1: "p = length (heap w)" "length (heap w) < length (heap w1)"
    "grows (length (heap w)) w w1" "pass_effect w w1" by simp_all
  from "4.IH"(2)[OF l refl r] have 2: "grows (length (heap w1)) w1 w'" "pass_effect w1 w'"
    "length ps' = length deps" "sorted_wrt (<) ps'"
    "\<forall>q\<in>set ps'. length (heap w1) \<le> q \<and> q < length (heap w')" by simp_all
  have "grows (length (heap w)) w1 w'" using 2(1) 1(2) by (auto intro: grows_mono)
  with 1(3) have "grows (length (heap w)) w w'" by (rule grows_trans)
  moreover have "pass_effect w w'"
    using 1(4) 2(2) by (rule pass_effect_trans) (use 1(3) in \<open>simp add: grows_def\<close>)
  moreover have "sorted_wrt (<) ps" unfolding ps using 2(4,5) 1(1,2) by auto
  moreover have "\<forall>q\<in>set ps. length (heap w) \<le> q \<and> q < length (heap w')"
    unfolding ps using 2(5) 1(1,2) 2(1) by (auto simp: grows_def)
  ultimately show ?case using 2(3) ps by simp
qed




lemma pass_events_same: "events w' = events w \<Longrightarrow> pass_events w w'"
  by (simp add: pass_events_def)

lemma pass_events_trans:
  assumes "pass_events w w1" "pass_events w1 w2" "fixtures w1 = fixtures w"
  shows "pass_events w w2"
proof -
  from assms(1) obtain es1 where 1: "events w1 = events w @ es1"
    "\<forall>x. SetupStarted x \<in> set es1 \<longrightarrow> (\<exists>f. map_of (fixtures w) x = Some f \<and> fx_dependencies f = None)"
    unfolding pass_events_def by blast
  from assms(2,3) obtain es2 where 2: "events w2 = events w1 @ es2"
    "\<forall>x. SetupStarted x \<in> set es2 \<longrightarrow> (\<exists>f. map_of (fixtures w) x = Some f \<and> fx_dependencies f = None)"
    unfolding pass_events_def by auto
  show ?thesis unfolding pass_events_def
    by (rule exI[of _ "es1 @ es2"]) (use 1 2 in auto)
qed

lemma call_setup_events:
  "events (snd (call_setup n cb w)) = events w @
     (case cb of Immediately r \<Rightarrow> [SetupStarted n, SetupSettled n] | Later r \<Rightarrow> [SetupStarted n])"
  by (cases cb) (simp_all add: new_promise_def)

lemma load_setup_events:
  "events (load_setup n f rp w) = events w @
     (case fx_setup f of
        None \<Rightarrow> []
      | Some (Immediately r) \<Rightarrow> [SetupStarted n, SetupSettled n]
      | Some (Later r) \<Rightarrow> [SetupStarted n])"
  by (simp add: load_setup_def Let_def split_beta call_setup_events
      split: option.splits callback.splits)

lemma pass_events_load_setup:
  assumes "map_of (fixtures w) n = Some f" "fx_dependencies f = None"
  shows "pass_events w (load_setup n f' rp w)"
proof (cases "fx_setup f'")
  case None
  then show ?thesis by (simp add: pass_events_def load_setup_events)
next
  case (Some cb)
  show ?thesis
    unfolding pass_events_def load_setup_events Some
    by (cases cb) (use assms in simp_all)
qed

lemma pass_events_log:
  assumes "pass_events (log_event (Loading n) w) w'"
  shows "pass_events w w'"
proof -
  from assms obtain es where "events w' = events w @ Loading n # es"
    "\<forall>x. SetupStarted x \<in> set es \<longrightarrow> (\<exists>f. map_of (fixtures w) x = Some f \<and> fx_dependencies f = None)"
    unfolding pass_events_def by auto
  then show ?thesis unfolding pass_events_def
    by (intro exI[of _ "Loading n # es"]) auto
qed

lemma pass_events_new:
  "pass_events (snd (new_promise w)) w' = pass_events w w'"
  by (simp add: pass_events_def)

lemma load_pass_events:
  "load k n w = Some (p, w') \<Longrightarrow> pass_events w w'"
  and load_deps_pass_events:
  "load_deps k ds w = Some (ps, w') \<Longrightarrow> pass_events w w'"
proof (induction k n w and k ds w arbitrary: p w' and ps w' rule: load_load_deps.induct)
  case (1 fixtureName w)
  then show ?case by simp
next
  case (2 k n w)
  let ?rp = "length (heap w)"
  let ?w1 = "snd (new_promise w)"
  let ?w2 = "log_event (Loading n) ?w1"
  note prem = "2.prems"[unfolded load_Suc]
  show ?case
  proof (cases "map_of (fixtures w) n")
    case None
    with prem have "w' = settle ?rp (Rejected (fixture_not_found n)) ?w1" by auto
    then show ?thesis by (simp add: pass_events_same)
  next
    case (Some fixture)
    note fx = Some
    show ?thesis
    proof (cases "map_of (setupPromises w) n")
      case (Some q)
      with prem fx have "w' = ?w1\<lparr>microtasks := microtasks w @ [Then_job ?rp q]\<rparr>" by auto
      then show ?thesis by (simp add: pass_events_same)
    next
      case None
      note nf = None
      show ?thesis
      proof (cases "n \<in> set (loadedFixtures w)")
        case True
        with prem fx nf have "w' = settle ?rp Fulfilled ?w1" by auto
        then show ?thesis by (simp add: pass_events_same)
      next
        case False
        note nl = False
        show ?thesis
        proof (cases "fx_dependencies fixture")
          case None
          with prem fx nf nl have w': "w' = load_setup n fixture ?rp ?w2" by auto
          have "pass_events ?w2 w'" unfolding w'
            by (rule pass_events_load_setup[where f = fixture]) (simp_all add: fx None)
          then have "pass_events ?w1 w'" by (rule pass_events_log)
          then show ?thesis by (simp only: pass_events_new)
        next
          case (Some deps)
          with prem fx nf nl obtain ps w3 where
            d: "load_deps k deps ?w2 = Some (ps, w3)"
            and w': "w' = subscribe (length (heap w3)) (Load_await_deps n fixture ?rp)
                       (snd (promise_all ps w3))"
            by (auto split: option.splits)
          have np: "(fst (new_promise w), ?w1) = new_promise w" by (simp add: new_promise_def)
          from "2.IH"[OF refl np _ _ _ refl Some d] fx nf nl
          have "pass_events ?w2 w3" by simp
          moreover have "events w' = events w3" unfolding w' by simp
          ultimately have "pass_events ?w2 w'" by (simp add: pass_events_def)
          then have "pass_events ?w1 w'" by (rule pass_events_log)
          then show ?thesis by (simp only: pass_events_new)
        qed
      qed
    qed
  qed
next
  case (3 k w)
  then show ?case by (simp add: pass_events_same)
next
  case (4 k dep deps w)
  from "4.prems" obtain p w1 ps' where
    l: "load k dep w = Some (p, w1)"
    and r: "load_deps k deps w1 = Some (ps', w')"
    by (auto split: option.splits)
  have "fixtures w1 = fixtures w" using load_pass[OF l] by (simp add: grows_def)
  with "4.IH"(1)[OF l] "4.IH"(2)[OF l refl r] show ?case by (rule pass_events_trans)
qed








text \<open>
  On an acyclic dependency graph (a rank that falls along every dependency edge) both
  recursions end: a depth above the rank of the name is enough.
\<close>

lemma unload_returns:
  fixes m :: "'a FixtureManager_scheme"
  assumes rank: "\<forall>(x, fx)\<in>set (fixtures m). \<forall>d. depends_on fx d \<longrightarrow> rank x < (rank d :: nat)"
  shows "rank n < k \<Longrightarrow> unload k n m \<noteq> None"
  using rank
proof (induction k arbitrary: n m)
  case 0
  then show ?case by simp
next
  case (Suc k)
  have loop: "unload_dependents k n fxs m' \<noteq> None"
    if "set fxs \<subseteq> set (fixtures m)" "fixtures m' = fixtures m"
    for fxs and m' :: "'a FixtureManager_scheme"
    using that
  proof (induction fxs arbitrary: m')
    case Nil
    then show ?case by simp
  next
    case (Cons a fxs)
    obtain x fx where a: "a = (x, fx)" by (cases a)
    show ?case
    proof (cases "depends_on fx n")
      case False
      with Cons a show ?thesis by simp
    next
      case True
      from Cons.prems(1) a have "(x, fx) \<in> set (fixtures m)" by simp
      with Suc.prems(2) True have "rank x < rank n" by blast
      with Suc.prems(1) have rx: "rank x < k" by simp
      have "\<forall>(x, fx)\<in>set (fixtures m'). \<forall>d. depends_on fx d \<longrightarrow> rank x < rank d"
        using Suc.prems(2) Cons.prems(2) by simp
      from Suc.IH[OF rx this] obtain r m1 where u: "unload k x m' = Some (r, m1)" by auto
      from unload_frame[OF u] Cons.prems(2) have "fixtures m1 = fixtures m" by simp
      with Cons.IH[of m1] Cons.prems(1) have "unload_dependents k n fxs m1 \<noteq> None" by simp
      with u True a show ?thesis by (cases r) auto
    qed
  qed
  have "unload_dependents k n (fixtures m) (log_event (Unloading n) m) \<noteq> None"
    by (rule loop) simp_all
  then show ?case by (auto split: option.splits sum.splits prod.splits)
qed

lemma load_returns:
  assumes rank: "\<forall>x f ds d. map_of (fixtures w) x = Some f \<and> fx_dependencies f = Some ds \<and> d \<in> set ds
            \<longrightarrow> rank d < (rank x :: nat)"
  shows "rank n < k \<Longrightarrow> load k n w \<noteq> None"
  using rank
proof (induction k arbitrary: n w)
  case 0
  then show ?case by simp
next
  case (Suc k)
  have loop: "load_deps k ds w' \<noteq> None"
    if "\<forall>d\<in>set ds. rank d < k" "fixtures w' = fixtures w" for ds w'
    using that
  proof (induction ds arbitrary: w')
    case Nil
    then show ?case by simp
  next
    case (Cons d ds)
    have "\<forall>x f ds d. map_of (fixtures w') x = Some f \<and> fx_dependencies f = Some ds \<and> d \<in> set ds
            \<longrightarrow> rank d < rank x"
      using Suc.prems(2) Cons.prems(2) by simp
    with Suc.IH[of d w'] Cons.prems(1) obtain p w1 where l: "load k d w' = Some (p, w1)" by auto
    from load_pass[OF l] Cons.prems(2) have "fixtures w1 = fixtures w" by (simp add: grows_def)
    with Cons.IH[of w1] Cons.prems(1) have "load_deps k ds w1 \<noteq> None" by simp
    with l show ?case by auto
  qed
  show ?case
  proof (cases "map_of (fixtures w) n")
    case None
    then show ?thesis unfolding load_Suc by simp
  next
    case (Some f)
    show ?thesis
    proof (cases "fx_dependencies f")
      case None
      with Some show ?thesis unfolding load_Suc by (simp split: option.splits)
    next
      case ds: (Some ds)
      have "\<forall>d\<in>set ds. rank d < k" using Suc.prems Some ds by (metis less_trans_Suc not_less_eq)
      then have "load_deps k ds (log_event (Loading n) (snd (new_promise w))) \<noteq> None"
        by (rule loop) simp
      with Some ds show ?thesis unfolding load_Suc by (auto split: option.splits)
    qed
  qed
qed

lemma exec_single: "exec k [a] w = (case perform k a w of None \<Rightarrow> None | Some w1 \<Rightarrow> drain k w1)"
  by (simp split: option.splits)







theorem unload_cascades_to_dependents_witness:
  "\<exists>m'. unload 2 ''db'' db_seedData_loaded = Some (Inr (), m')
     \<and> loadedFixtures m' = []
     \<and> events m' = [Unloading ''db'', Unloading ''seedData'', UnloadedOk ''seedData'', UnloadedOk ''db'']"
proof -
  have r: "map_option fst (unload 2 ''db'' db_seedData_loaded) = Some (Inr ())" by code_simp
  then obtain m' where u: "unload 2 ''db'' db_seedData_loaded = Some (Inr (), m')" by auto
  have l: "''db'' \<in> set (loadedFixtures db_seedData_loaded) \<or> deps_loaded db_seedData_loaded"
    by (simp add: db_seedData_loaded_def)
  have "map_option (loadedFixtures \<circ> snd) (unload 2 ''db'' db_seedData_loaded) = Some []"
    "map_option (events \<circ> snd) (unload 2 ''db'' db_seedData_loaded) =
      Some [Unloading ''db'', Unloading ''seedData'', UnloadedOk ''seedData'', UnloadedOk ''db'']"
    by code_simp+
  with u have e: "loadedFixtures m' = []"
    "events m' = [Unloading ''db'', Unloading ''seedData'', UnloadedOk ''seedData'', UnloadedOk ''db'']"
    by simp_all
  from unload_cascades_to_dependents[OF u l] have "''db'' \<notin> set (loadedFixtures m')" by blast
  with u e show ?thesis by blast
qed

subsection \<open>Runs of the event loop on concrete fixtures\<close>

text \<open>
  Scenario 2 of the specification: \<^verbatim>\<open>seedData\<close> depends on \<^verbatim>\<open>db\<close>; the setup of \<^verbatim>\<open>db\<close>
  is settled before the setup of \<^verbatim>\<open>seedData\<close> starts.
\<close>

lemma load_db_then_seedData:
  "map_option events (exec 9 [Calls [''seedData'']] db_seedData) =
     Some [Loading ''seedData'', Loading ''db'', SetupStarted ''db'', SetupSettled ''db'',
           LoadedOk ''db'', SetupStarted ''seedData'', SetupSettled ''seedData'',
           LoadedOk ''seedData'', Resolved ''seedData'']"
  by code_simp


text \<open>
  C2 fails on the code: fixture \<open>a\<close> has the dependency list \<^verbatim>\<open>[]\<close>, so both calls
  \<^verbatim>\<open>load('a')\<close> of one synchronous block pass the \<^verbatim>\<open>setupPromises.has\<close> check before
  either has reached \<^verbatim>\<open>setupPromises.set\<close> (which comes after
  \<^verbatim>\<open>await Promise.all(...)\<close>), and the setup callback is called twice.
\<close>

theorem concurrent_load_runs_setup_twice:
  "map_option events (exec 4 [Calls [''a'', ''a'']] twice_a) =
     Some [Loading ''a'', Loading ''a'', SetupStarted ''a'', SetupStarted ''a'']"
  by code_simp

text \<open>
  With \<^verbatim>\<open>dependencies\<close> undefined the first call reaches \<^verbatim>\<open>setupPromises.set\<close> without an
  \<^verbatim>\<open>await\<close>, and the second call joins it: one setup.
\<close>

lemma concurrent_load_without_dependency_list:
  "map_option events (exec 4 [Calls [''a'', ''a'']] once_a) =
     Some [Loading ''a'', SetupStarted ''a'']"
  by code_simp


text \<open>
  C7 as stated fails.  Fixture \<open>x\<close> has no setup callback, so its first load leaves a
  fulfilled promise in \<^verbatim>\<open>setupPromises\<close> for good; \<open>y\<close> depends on \<open>x\<close>.  After
  \<^verbatim>\<open>load('y')\<close>, \<^verbatim>\<open>unload('x')\<close>, \<^verbatim>\<open>load('y')\<close> the fixture \<open>y\<close> is loaded and \<open>x\<close> is not;
  \<^verbatim>\<open>unload('x')\<close> then returns at once, and \<open>y\<close> stays loaded with \<open>x\<close> in its
  dependency list.
\<close>

theorem unload_leaves_loaded_dependent_counterexample:
  "exec 9 [Calls [''y''], Unload_call ''x'', Calls [''y'']] plain_x \<noteq> None
   \<and> map_option fst
        (unload 9 ''x'' (state_after 9 [Calls [''y''], Unload_call ''x'', Calls [''y'']] plain_x))
       = Some (Inr ())
   \<and> map_option (loadedFixtures \<circ> snd)
        (unload 9 ''x'' (state_after 9 [Calls [''y''], Unload_call ''x'', Calls [''y'']] plain_x))
       = Some [''y'']
   \<and> map_option fx_dependencies (map_of (fixtures plain_x) ''y'') = Some (Some [''x''])"
  by code_simp

text \<open>
  C8 fails on the code.  \<open>top\<close> depends on \<open>f\<close> and \<open>d\<close>, \<open>f\<close> on \<open>d\<close>, \<open>d\<close> on \<open>e\<close>, and
  \<open>e\<close> has the dependency list \<^verbatim>\<open>[]\<close>.  One call \<^verbatim>\<open>load('top')\<close> starts two loads of \<open>d\<close>
  and of \<open>e\<close>, none of them seeing the other in \<^verbatim>\<open>setupPromises\<close>.  The host settles the
  first setup of \<open>e\<close> (promise 13), then the setup of \<open>d\<close> (promise 17), and the setup of
  \<open>f\<close> starts; when the second setup of \<open>e\<close> (promise 15) is settled, the setup of \<open>d\<close>,
  a dependency of \<open>f\<close>, is started once more.
\<close>

theorem shared_dependency_setup_restarts:
  "map_option events (exec 9 [Calls [''top''], Io_done 13, Io_done 17, Io_done 15] shared_dep) =
     Some [Loading ''top'', Loading ''f'', Loading ''d'', Loading ''e'', Loading ''d'',
           Loading ''e'', SetupStarted ''e'', SetupStarted ''e'', SetupSettled ''e'',
           LoadedOk ''e'', SetupStarted ''d'', SetupSettled ''d'', LoadedOk ''d'',
           SetupStarted ''f'', SetupSettled ''e'', LoadedOk ''e'', SetupStarted ''d'']"
  by code_simp

end
